theory Spec2Isabelle
  imports Main
begin

section \<open>JavaScript string helpers\<close>

text \<open>
  A JavaScript string is modelled as a \<^typ>\<open>string\<close>, one \<^typ>\<open>char\<close> per code unit
  (code units below 256, i.e. Latin-1 text). \<open>truthy\<close> is the truth value JavaScript gives
  to a value that is either \<open>undefined\<close> (\<open>None\<close>) or a string: only a non-empty
  string is truthy. \<open>or_else a b\<close> is \<open>a || b\<close> on such values.
\<close>

definition truthy :: "string option \<Rightarrow> bool" where
  "truthy v = (case v of None \<Rightarrow> False | Some s \<Rightarrow> s \<noteq> [])"

definition or_else :: "string option \<Rightarrow> string option \<Rightarrow> string option" where
  "or_else a b = (if truthy a then a else b)"

text \<open>\<open>String.prototype.toLowerCase\<close>: A-Z and the Latin-1 capitals move up by 32.\<close>

definition lower_char :: "char \<Rightarrow> char" where
  "lower_char c =
     (let n = (of_char c :: nat)
      in if (65 \<le> n \<and> n \<le> 90) \<or> (192 \<le> n \<and> n \<le> 222 \<and> n \<noteq> 215)
         then char_of (n + 32) else c)"

definition toLowerCase :: "string \<Rightarrow> string" where
  "toLowerCase s = map lower_char s"

text \<open>\<open>s.startsWith(t)\<close> and \<open>s.includes(t)\<close>: \<open>t\<close> occurs in \<open>s\<close> as a contiguous block.\<close>

definition startsWith :: "string \<Rightarrow> string \<Rightarrow> bool" where
  "startsWith s t = (take (length t) s = t)"

fun str_includes :: "string \<Rightarrow> string \<Rightarrow> bool" where
  "str_includes [] t = (t = [])"
| "str_includes (c # s) t = (startsWith (c # s) t \<or> str_includes s t)"

section \<open>Context enrichment: \<open>utils/userAgent.ts\<close>\<close>

record ParsedUserAgent =
  browser :: string
  os :: string
  device :: string

definition parseUserAgent :: "string \<Rightarrow> ParsedUserAgent" where
  "parseUserAgent userAgent =
     (let ua = toLowerCase userAgent;
          browser =
            (if str_includes ua ''chrome'' \<and> \<not> str_includes ua ''edg'' then ''Chrome''
             else if str_includes ua ''safari'' \<and> \<not> str_includes ua ''chrome'' then ''Safari''
             else if str_includes ua ''firefox'' then ''Firefox''
             else if str_includes ua ''edg'' then ''Edge''
             else if str_includes ua ''opera'' \<or> str_includes ua ''opr'' then ''Opera''
             else ''Unknown'');
          os =
            (if str_includes ua ''windows'' then ''Windows''
             else if str_includes ua ''mac'' then ''macOS''
             else if str_includes ua ''linux'' then ''Linux''
             else if str_includes ua ''android'' then ''Android''
             else if str_includes ua ''ios'' \<or> str_includes ua ''iphone'' \<or> str_includes ua ''ipad''
               then ''iOS''
             else ''Unknown'');
          device =
            (if str_includes ua ''mobile'' \<or> str_includes ua ''android'' then ''mobile''
             else if str_includes ua ''tablet'' \<or> str_includes ua ''ipad'' then ''tablet''
             else ''desktop'')
      in \<lparr> browser = browser, os = os, device = device \<rparr>)"

text \<open>
  \<open>extractIpAddress\<close>: the first comma-separated entry of \<open>x-forwarded-for\<close>, trimmed,
  else \<open>x-real-ip\<close>, else the peer address of the connection or the socket, else the
  literal \<open>unknown\<close>.
\<close>

definition is_space :: "char \<Rightarrow> bool" where
  "is_space c = ((of_char c :: nat) \<in> {9, 10, 11, 12, 13, 32, 160})"

definition trim :: "string \<Rightarrow> string" where
  "trim s = rev (dropWhile is_space (rev (dropWhile is_space s)))"

definition first_entry :: "string \<Rightarrow> string" where
  "first_entry s = takeWhile (\<lambda>c. c \<noteq> CHR '','') s"

section \<open>Data model: \<open>database/schema.sql\<close>\<close>

text \<open>
  Identifiers are the text of a UUID; a \<open>TIMESTAMP\<close> is a number of milliseconds. A
  nullable column is an \<open>option\<close>. Column names carry the alias the queries use for their
  table (\<open>u.id\<close> is \<open>u_id\<close>, \<open>ak.user_id\<close> is \<open>ak_user_id\<close>, \<open>e.user_id\<close> is
  \<open>e_user_id\<close>).
\<close>

type_synonym uuid = string
type_synonym timestamp = int

record users_row =
  u_id :: uuid
  u_google_id :: string
  u_email :: string
  u_name :: "string option"

record api_keys_row =
  ak_id :: uuid
  ak_user_id :: uuid
  ak_app_name :: string
  ak_app_domain :: "string option"
  ak_api_key :: string
  ak_is_active :: "bool option"
  ak_expires_at :: "timestamp option"
  ak_revoked_at :: "timestamp option"
  ak_last_used_at :: "timestamp option"

text \<open>A JSON object with string values, as the list of its properties in insertion order.\<close>

type_synonym json_object = "(string \<times> string) list"

record events_row =
  e_id :: uuid
  e_api_key_id :: uuid
  e_event_name :: string
  e_url :: "string option"
  e_referrer :: "string option"
  e_device :: "string option"
  e_ip_address :: "string option"
  e_user_agent :: "string option"
  e_browser :: "string option"
  e_os :: "string option"
  e_screen_size :: "string option"
  e_user_id :: "string option"
  e_metadata :: json_object
  e_timestamp :: timestamp
  e_created_at :: timestamp

section \<open>Aggregate results and the envelope of a response\<close>

record EventSummary =
  s_event :: string
  s_count :: nat
  s_uniqueUsers :: nat
  s_uniqueIps :: nat
  s_deviceData :: "(string \<times> nat option) list"
  s_browserData :: "(string \<times> nat option) list"
  s_osData :: "(string \<times> nat option) list"

record RecentEvent =
  r_event_name :: string
  r_timestamp :: timestamp
  r_url :: "string option"

record UserStats =
  us_userId :: "string option"
  us_totalEvents :: nat
  us_uniqueEvents :: nat
  us_deviceDetails :: "(string \<times> nat option) list"
  us_ipAddresses :: "string list"
  us_lastEventAt :: "timestamp option"
  us_firstEventAt :: "timestamp option"
  us_recentEvents :: "RecentEvent list"

text \<open>
  The text that \<open>JSON.stringify\<close> makes of an aggregate, kept as the aggregate it encodes:
  \<open>JSON.parse\<close> of that text gives the same content back, so the cache holds a
  \<open>json_doc\<close> and a response carries one as its \<open>data\<close>.
\<close>

datatype json_doc = SummaryDoc EventSummary | UserStatsDoc UserStats

text \<open>
  The uniform envelope \<open>{success, message?, data?, cached?}\<close> with its HTTP status. A
  field that the handler does not send is \<open>None\<close>.
\<close>

record 'd response =
  status :: nat
  success :: bool
  message :: "string option"
  data :: "'d option"
  cached :: "bool option"

definition failure :: "nat \<Rightarrow> string \<Rightarrow> 'd response" where
  "failure st msg =
     \<lparr> status = st, success = False, message = Some msg, data = None, cached = None \<rparr>"

section \<open>The shared state: relational store and cache\<close>

text \<open>
  \<open>db_up\<close> says whether \<open>pool.query\<close> resolves; when it is \<open>False\<close> every query of the
  step rejects (the handler's \<open>catch\<close> runs). \<open>redis_up\<close> says the same of the Redis
  client. The cache maps a key to its value and the time at which \<open>SETEX\<close> lets it expire.

  The column \<open>ip_address\<close> has the type \<open>INET\<close> of the store. Its input function and
  its order are parameters of the store: \<open>inet_in\<close> gives \<open>None\<close> for a text that is not
  an address (the store then refuses the statement) and else the value that is stored,
  written as its canonical text, so that two spellings of one address are stored as the
  same value; \<open>inet_le\<close> is the order in which the store sorts such values.
\<close>

record world =
  db_up :: bool
  users :: "users_row list"
  api_keys :: "api_keys_row list"
  events :: "events_row list"
  redis_up :: bool
  redis :: "string \<rightharpoonup> (json_doc \<times> timestamp)"
  inet_in :: "string \<Rightarrow> string option"
  inet_le :: "string \<Rightarrow> string \<Rightarrow> bool"

section \<open>Cache store: \<open>config/redis.ts\<close>\<close>

text \<open>
  The glob of the Redis \<open>KEYS\<close> command: \<open>*\<close> stands for any run of characters, \<open>?\<close> for
  one character, any other character for itself. (The patterns this program builds are
  \<open>analytics:<uuid>:*\<close>; character classes and escapes do not occur in them.)
\<close>

fun glob_match :: "string \<Rightarrow> string \<Rightarrow> bool" where
  "glob_match [] s = (s = [])"
| "glob_match (p # ps) [] = (p = CHR ''*'' \<and> glob_match ps [])"
| "glob_match (p # ps) (c # s) =
     (if p = CHR ''*'' then glob_match ps (c # s) \<or> glob_match (p # ps) s
      else (p = CHR ''?'' \<or> p = c) \<and> glob_match ps s)"

text \<open>Every helper catches the client's failure: a miss for \<open>get\<close>, nothing done otherwise.\<close>

definition cacheGet :: "timestamp \<Rightarrow> world \<Rightarrow> string \<Rightarrow> json_doc option" where
  "cacheGet now w key =
     (if \<not> redis_up w then None
      else case redis w key of
             None \<Rightarrow> None
           | Some (v, expires) \<Rightarrow> if now < expires then Some v else None)"

definition cacheSet :: "timestamp \<Rightarrow> world \<Rightarrow> string \<Rightarrow> json_doc \<Rightarrow> int \<Rightarrow> world" where
  "cacheSet now w key v ttl =
     (if \<not> redis_up w then w
      else w\<lparr> redis := (redis w)(key \<mapsto> (v, now + 1000 * ttl)) \<rparr>)"

definition cacheDeletePattern :: "world \<Rightarrow> string \<Rightarrow> world" where
  "cacheDeletePattern w pattern =
     (if \<not> redis_up w then w
      else w\<lparr> redis := (\<lambda>k. if glob_match pattern k then None else redis w k) \<rparr>)"

section \<open>Requests\<close>

text \<open>The row that the credential lookup returns: \<open>ak.*\<close> with the owner's id and email.\<close>

record api_key_data =
  ak :: api_keys_row
  user_email :: string

text \<open>
  The Express request with the headers and fields the handlers read, and \<open>input\<close> for
  the validated \<open>req.body\<close> or \<open>req.query\<close>.
\<close>

record 'p AuthRequest =
  x_api_key :: "string option"
  user_agent :: "string option"
  x_forwarded_for :: "string option"
  x_real_ip :: "string option"
  connection_remoteAddress :: "string option"
  socket_remoteAddress :: "string option"
  ip :: "string option"
  user :: "users_row option"
  apiKeyData :: "api_key_data option"
  input :: 'p

definition extractIpAddress :: "'p AuthRequest \<Rightarrow> string" where
  "extractIpAddress req =
     (case or_else (map_option (trim \<circ> first_entry) (x_forwarded_for req))
            (or_else (x_real_ip req)
              (or_else (connection_remoteAddress req) (socket_remoteAddress req))) of
        None \<Rightarrow> ''unknown''
      | Some a \<Rightarrow> if a = [] then ''unknown'' else a)"

section \<open>Credential validator: \<open>middleware/auth.ts\<close>\<close>

text \<open>A middleware either hands the request on (\<open>next()\<close>) or answers it itself.\<close>

datatype 'p middleware_result = Next "'p AuthRequest" | Respond "unit response"

text \<open>
  The lookup both modes run: \<open>api_keys\<close> joined with \<open>users\<close>, the secret equal to the
  header, \<open>is_active = true\<close>, and no expiry or one after \<open>CURRENT_TIMESTAMP\<close>.
\<close>

definition usable :: "timestamp \<Rightarrow> api_keys_row \<Rightarrow> bool" where
  "usable now k =
     (ak_is_active k = Some True \<and>
      (case ak_expires_at k of None \<Rightarrow> True | Some t \<Rightarrow> t > now))"

definition lookup_api_key :: "timestamp \<Rightarrow> world \<Rightarrow> string \<Rightarrow> api_key_data list" where
  "lookup_api_key now w apiKey =
     [\<lparr> ak = k\<lparr> ak_user_id := u_id u \<rparr>, user_email = u_email u \<rparr>.
        k \<leftarrow> api_keys w, u \<leftarrow> users w,
        ak_user_id k = u_id u, ak_api_key k = apiKey \<and> usable now k]"

definition touch_last_used :: "timestamp \<Rightarrow> uuid \<Rightarrow> world \<Rightarrow> world" where
  "touch_last_used now i w =
     (if \<not> db_up w then w
      else w\<lparr> api_keys :=
             map (\<lambda>k. if ak_id k = i then k\<lparr> ak_last_used_at := Some now \<rparr> else k)
               (api_keys w) \<rparr>)"

definition validateApiKey ::
  "timestamp \<Rightarrow> world \<Rightarrow> 'p AuthRequest \<Rightarrow> 'p middleware_result \<times> world" where
  "validateApiKey now w req =
     (case x_api_key req of
        None \<Rightarrow>
          (Respond (failure 401 ''API key is required. Please include X-API-Key header.''), w)
      | Some apiKey \<Rightarrow>
          if apiKey = [] then
            (Respond (failure 401 ''API key is required. Please include X-API-Key header.''), w)
          else if \<not> db_up w then
            (Respond (failure 500 ''Error validating API key.''), w)
          else
            (case lookup_api_key now w apiKey of
               [] \<Rightarrow> (Respond (failure 401 ''Invalid or expired API key.''), w)
             | row # _ \<Rightarrow>
                 (Next (req\<lparr> apiKeyData := Some row \<rparr>),
                  touch_last_used now (ak_id (ak row)) w)))"

definition optionalApiKey ::
  "timestamp \<Rightarrow> world \<Rightarrow> 'p AuthRequest \<Rightarrow> 'p middleware_result" where
  "optionalApiKey now w req =
     (case x_api_key req of
        None \<Rightarrow> Next req
      | Some apiKey \<Rightarrow>
          if apiKey = [] then Next req
          else if \<not> db_up w then Next req
          else
            (case lookup_api_key now w apiKey of
               [] \<Rightarrow> Next req
             | row # _ \<Rightarrow> Next (req\<lparr> apiKeyData := Some row \<rparr>)))"

section \<open>Event writer: \<open>collectEvent\<close>\<close>

record CollectBody =
  b_event :: string
  b_url :: "string option"
  b_referrer :: "string option"
  b_device :: "string option"
  b_ipAddress :: "string option"
  b_timestamp :: "timestamp option"
  b_metadata :: "json_object option"
  b_user_id :: "string option"

text \<open>Setting a property of an object: in place when the key is there, else at the end.\<close>

fun obj_set :: "(string \<times> 'v) list \<Rightarrow> string \<Rightarrow> 'v \<Rightarrow> (string \<times> 'v) list" where
  "obj_set [] k v = [(k, v)]"
| "obj_set ((k', v') # kvs) k v =
     (if k' = k then (k, v) # kvs else (k', v') # obj_set kvs k v)"

record Created =
  c_id :: uuid
  c_created_at :: timestamp

text \<open>
  The columns of \<open>events\<close> as \<open>schema.sql\<close> declares them. A \<open>VARCHAR(n)\<close> column takes
  a text of at most \<open>n\<close> characters as it is; of a longer text it takes the first \<open>n\<close>
  characters when all the others are spaces, and else the store refuses the statement. An
  \<open>INET\<close> column takes what \<open>inet_in\<close> makes of the text. NULL goes into any column
  that is not declared \<open>NOT NULL\<close>.
\<close>

definition varchar :: "nat \<Rightarrow> string \<Rightarrow> string option" where
  "varchar n s =
     (if length s \<le> n then Some s
      else if list_all (\<lambda>c. c = CHR '' '') (drop n s) then Some (take n s)
      else None)"

definition nullable :: "('a \<Rightarrow> 'b option) \<Rightarrow> 'a option \<Rightarrow> 'b option option" where
  "nullable column v = (case v of None \<Rightarrow> Some None | Some x \<Rightarrow> map_option Some (column x))"

text \<open>
  \<open>INSERT INTO events (...) VALUES (...)\<close> with the values \<open>v\<close>: refused (\<open>None\<close>) when the
  store does not answer, when \<open>api_key_id\<close> references no row of \<open>api_keys\<close>, or when a
  value does not fit the type of its column; else the row is stored with the values as the
  columns hold them.
\<close>

definition insert_events :: "world \<Rightarrow> events_row \<Rightarrow> world option" where
  "insert_events w v =
     (if db_up w \<and> e_api_key_id v \<in> set (map ak_id (api_keys w)) then
        Option.bind (varchar 255 (e_event_name v)) (\<lambda>event_name.
        Option.bind (nullable (varchar 50) (e_device v)) (\<lambda>device.
        Option.bind (nullable (inet_in w) (e_ip_address v)) (\<lambda>ip_address.
        Option.bind (nullable (varchar 100) (e_browser v)) (\<lambda>browser.
        Option.bind (nullable (varchar 100) (e_os v)) (\<lambda>os.
        Option.bind (nullable (varchar 50) (e_screen_size v)) (\<lambda>screen_size.
        Option.bind (nullable (varchar 255) (e_user_id v)) (\<lambda>user_id.
          Some (w\<lparr> events := events w @
                  [v\<lparr> e_event_name := event_name, e_device := device,
                      e_ip_address := ip_address, e_browser := browser, e_os := os,
                      e_screen_size := screen_size, e_user_id := user_id \<rparr>] \<rparr>))))))))
      else None)"

text \<open>
  The values the handler passes to its \<open>INSERT\<close>: the client's device and address come
  before the derived ones, the raw signature is merged into the metadata, and the time of
  the event is the client's or else the server's. \<open>new_id\<close> is the identifier the store
  generates for the row, \<open>now\<close> the server's clock.
\<close>

definition event_values ::
  "timestamp \<Rightarrow> uuid \<Rightarrow> api_key_data \<Rightarrow> CollectBody AuthRequest \<Rightarrow> events_row" where
  "event_values now new_id akd req =
     (let body = input req;
          metadata = (case b_metadata body of None \<Rightarrow> [] | Some m \<Rightarrow> m);
          apiKeyId = ak_id (ak akd);
          userAgent = (case or_else (user_agent req) (Some ''unknown'') of
                         None \<Rightarrow> ''unknown'' | Some a \<Rightarrow> a);
          parsedUA = parseUserAgent userAgent;
          device = or_else (b_device body) (Some (device parsedUA));
          ipAddress = or_else (b_ipAddress body) (Some (extractIpAddress req));
          enrichedMetadata = obj_set metadata ''userAgent'' userAgent
      in \<lparr> e_id = new_id, e_api_key_id = apiKeyId, e_event_name = b_event body,
           e_url = b_url body, e_referrer = b_referrer body, e_device = device,
           e_ip_address = ipAddress, e_user_agent = Some userAgent,
           e_browser = Some (browser parsedUA), e_os = Some (os parsedUA),
           e_screen_size = map_of metadata ''screenSize'',
           e_user_id = b_user_id body, e_metadata = enrichedMetadata,
           e_timestamp = (case b_timestamp body of None \<Rightarrow> now | Some t \<Rightarrow> t),
           e_created_at = now \<rparr>)"

text \<open>
  The handler reads \<open>req.apiKeyData.id\<close> inside its \<open>try\<close>: with no credential attached
  that read throws and the answer is the 500 of the \<open>catch\<close>, as it is when the store
  refuses the \<open>INSERT\<close>. After the row is stored the handler deletes by its pattern and
  answers 201.
\<close>

definition collectEvent ::
  "timestamp \<Rightarrow> uuid \<Rightarrow> world \<Rightarrow> CollectBody AuthRequest \<Rightarrow> Created response \<times> world" where
  "collectEvent now new_id w req =
     (case apiKeyData req of
        None \<Rightarrow> (failure 500 ''Error collecting event'', w)
      | Some akd \<Rightarrow>
          (case insert_events w (event_values now new_id akd req) of
             None \<Rightarrow> (failure 500 ''Error collecting event'', w)
           | Some w1 \<Rightarrow>
               (\<lparr> status = 201, success = True,
                  message = Some ''Event collected successfully'',
                  data = Some \<lparr> c_id = new_id, c_created_at = now \<rparr>, cached = None \<rparr>,
                cacheDeletePattern w1 (''analytics:'' @ ak_id (ak akd) @ '':*''))))"

text \<open>A run of writes, each with the time it is handled at and the identifier of its row.\<close>

fun collectEvents ::
  "world \<Rightarrow> (timestamp \<times> uuid \<times> CollectBody AuthRequest) list \<Rightarrow> world" where
  "collectEvents w [] = w"
| "collectEvents w ((now, new_id, req) # rest) =
     collectEvents (snd (collectEvent now new_id w req)) rest"

text \<open>The answers of such a run, in order.\<close>

fun collectResponses ::
  "world \<Rightarrow> (timestamp \<times> uuid \<times> CollectBody AuthRequest) list \<Rightarrow> Created response list" where
  "collectResponses w [] = []"
| "collectResponses w ((now, new_id, req) # rest) =
     fst (collectEvent now new_id w req)
       # collectResponses (snd (collectEvent now new_id w req)) rest"

section \<open>Aggregation engine: the SQL of the two queries\<close>

text \<open>
  \<open>GROUP BY key\<close> with \<open>COUNT(*)\<close>; \<open>LEFT JOIN\<close> of one row with its matches (a row of
  NULLs when there is none); \<open>=\<close> on nullable columns, which NULL never satisfies;
  \<open>COUNT(DISTINCT c)\<close>, which skips NULL; \<open>json_object_agg\<close> as the object the driver
  parses from it.
\<close>

definition group_count :: "('r \<Rightarrow> 'k) \<Rightarrow> 'r list \<Rightarrow> ('k \<times> nat) list" where
  "group_count key rs =
     map (\<lambda>k. (k, length (filter (\<lambda>r. key r = k) rs))) (remdups (map key rs))"

definition left_join :: "'a list \<Rightarrow> 'a option list" where
  "left_join ms = (if ms = [] then [None] else map Some ms)"

definition sql_eq :: "'a option \<Rightarrow> 'a option \<Rightarrow> bool" where
  "sql_eq a b = (a \<noteq> None \<and> a = b)"

definition non_null :: "'a option list \<Rightarrow> 'a list" where
  "non_null xs = concat (map (\<lambda>x. case x of None \<Rightarrow> [] | Some v \<Rightarrow> [v]) xs)"

definition count_distinct :: "'a option list \<Rightarrow> nat" where
  "count_distinct xs = length (remdups (non_null xs))"

definition json_object_agg :: "(string \<times> 'v) list \<Rightarrow> (string \<times> 'v) list" where
  "json_object_agg kvs = fold (\<lambda>(k, v) obj. obj_set obj k v) kvs []"

text \<open>\<open>SELECT api_key_id, c, COUNT(*) FROM events GROUP BY api_key_id, c\<close>, and its join.\<close>

definition counts_by ::
  "(events_row \<Rightarrow> string option) \<Rightarrow> events_row list \<Rightarrow> ((uuid \<times> string option) \<times> nat) list" where
  "counts_by col es = group_count (\<lambda>e. (e_api_key_id e, col e)) es"

definition join_counts ::
  "(events_row \<Rightarrow> string option) \<Rightarrow> events_row list \<Rightarrow> events_row \<Rightarrow> nat option list" where
  "join_counts col es e =
     left_join [n. ((k, c), n) \<leftarrow> counts_by col es, e_api_key_id e = k \<and> sql_eq (col e) c]"

text \<open>
  A \<open>Date\<close> of a validated query: its instant, and the text a template literal makes of it.
\<close>

record js_date =
  instant :: timestamp
  text_of :: string

record SummaryQuery =
  q_event :: string
  q_startDate :: "js_date option"
  q_endDate :: "js_date option"
  q_app_id :: "string option"

definition summary_where ::
  "SummaryQuery \<Rightarrow> string option \<Rightarrow> events_row \<Rightarrow> api_keys_row \<Rightarrow> bool" where
  "summary_where q userId e k =
     (e_event_name e = q_event q \<and>
      (truthy userId \<longrightarrow> Some (ak_user_id k) = userId) \<and>
      (truthy (q_app_id q) \<longrightarrow> Some (ak_id k) = q_app_id q) \<and>
      (case q_startDate q of None \<Rightarrow> True | Some d \<Rightarrow> e_timestamp e \<ge> instant d) \<and>
      (case q_endDate q of None \<Rightarrow> True | Some d \<Rightarrow> e_timestamp e \<le> instant d))"

text \<open>
  The joined rows of the summary query that pass its \<open>WHERE\<close>. SQL fixes no order for
  the rows of a join: they are taken here in the order of the event table, and the
  aggregates whose result depends on the order of their input (\<open>json_object_agg\<close>,
  \<open>json_agg\<close>) read them in that order.
\<close>

type_synonym summary_joined = "events_row \<times> api_keys_row \<times> nat option \<times> nat option \<times> nat option"

definition summary_rows :: "world \<Rightarrow> SummaryQuery \<Rightarrow> string option \<Rightarrow> summary_joined list" where
  "summary_rows w q userId =
     [(e, k, dc, bc, oc).
        e \<leftarrow> events w, k \<leftarrow> api_keys w, e_api_key_id e = ak_id k,
        dc \<leftarrow> join_counts e_device (events w) e,
        bc \<leftarrow> join_counts e_browser (events w) e,
        oc \<leftarrow> join_counts e_os (events w) e,
        summary_where q userId e k]"

definition object_of ::
  "(events_row \<Rightarrow> string option) \<Rightarrow> (events_row \<times> nat option) list \<Rightarrow> (string \<times> nat option) list" where
  "object_of col rs =
     json_object_agg
       (concat (map (\<lambda>(e, c). case col e of None \<Rightarrow> [] | Some d \<Rightarrow> [(d, c)]) rs))"

text \<open>\<open>GROUP BY e.event_name\<close>: one result row for each event name among the joined rows.\<close>

definition summary_result :: "summary_joined list \<Rightarrow> EventSummary list" where
  "summary_result rs =
     map (\<lambda>n.
            let g = filter (\<lambda>(e, k, dc, bc, oc). e_event_name e = n) rs
            in \<lparr> s_event = n,
                 s_count = length g,
                 s_uniqueUsers = count_distinct (map (\<lambda>(e, k, dc, bc, oc). e_user_id e) g),
                 s_uniqueIps = count_distinct (map (\<lambda>(e, k, dc, bc, oc). e_ip_address e) g),
                 s_deviceData = object_of e_device (map (\<lambda>(e, k, dc, bc, oc). (e, dc)) g),
                 s_browserData = object_of e_browser (map (\<lambda>(e, k, dc, bc, oc). (e, bc)) g),
                 s_osData = object_of e_os (map (\<lambda>(e, k, dc, bc, oc). (e, oc)) g) \<rparr>)
         (remdups (map (\<lambda>(e, k, dc, bc, oc). e_event_name e) rs))"

section \<open>Aggregation engine: \<open>getEventSummary\<close>\<close>

definition userId_of :: "'p AuthRequest \<Rightarrow> string option" where
  "userId_of req = map_option u_id (user req)"

definition interpolate :: "string option \<Rightarrow> string" where
  "interpolate v = (case v of None \<Rightarrow> ''undefined'' | Some s \<Rightarrow> s)"

definition or_all :: "string option \<Rightarrow> string" where
  "or_all v = (case or_else v (Some ''all'') of None \<Rightarrow> ''all'' | Some s \<Rightarrow> s)"

definition summaryCacheKey :: "SummaryQuery AuthRequest \<Rightarrow> string" where
  "summaryCacheKey req =
     (let q = input req
      in ''analytics:summary:'' @ q_event q @ '':'' @
         or_all (map_option text_of (q_startDate q)) @ '':'' @
         or_all (map_option text_of (q_endDate q)) @ '':'' @
         or_all (q_app_id q) @ '':'' @ interpolate (userId_of req))"

definition ok :: "json_doc \<Rightarrow> bool option \<Rightarrow> json_doc response" where
  "ok d c = \<lparr> status = 200, success = True, message = None, data = Some d, cached = c \<rparr>"

definition zero_summary :: "string \<Rightarrow> EventSummary" where
  "zero_summary event =
     \<lparr> s_event = event, s_count = 0, s_uniqueUsers = 0, s_uniqueIps = 0,
       s_deviceData = [], s_browserData = [], s_osData = [] \<rparr>"

definition getEventSummary ::
  "timestamp \<Rightarrow> world \<Rightarrow> SummaryQuery AuthRequest \<Rightarrow> json_doc response \<times> world" where
  "getEventSummary now w req =
     (let cacheKey = summaryCacheKey req
      in case cacheGet now w cacheKey of
           Some doc \<Rightarrow> (ok doc (Some True), w)
         | None \<Rightarrow>
             if \<not> db_up w then (failure 500 ''Error retrieving event summary'', w)
             else
               (case summary_result (summary_rows w (input req) (userId_of req)) of
                  [] \<Rightarrow> (ok (SummaryDoc (zero_summary (q_event (input req)))) None, w)
                | row # _ \<Rightarrow>
                    (ok (SummaryDoc row) None,
                     cacheSet now w cacheKey (SummaryDoc row) 300)))"

section \<open>Aggregation engine: \<open>getUserStats\<close>\<close>

record UserStatsQuery =
  q_userId :: string

text \<open>
  \<open>SELECT api_key_id, user_id, device, COUNT(*) FROM events GROUP BY api_key_id, user_id,
  device\<close>, joined on all three columns.
\<close>

definition user_device_counts ::
  "events_row list \<Rightarrow> ((uuid \<times> string option \<times> string option) \<times> nat) list" where
  "user_device_counts es = group_count (\<lambda>e. (e_api_key_id e, e_user_id e, e_device e)) es"

definition join_user_device_counts :: "events_row list \<Rightarrow> events_row \<Rightarrow> nat option list" where
  "join_user_device_counts es e =
     left_join [n. ((k, u, d), n) \<leftarrow> user_device_counts es,
                  e_api_key_id e = k \<and> sql_eq (e_user_id e) u \<and> sql_eq (e_device e) d]"

text \<open>
  \<open>json_agg(DISTINCT c)\<close> sorts the values of \<open>c\<close> to drop the duplicates and
  aggregates them in that order; \<open>le\<close> is the order of the column's type.
\<close>

fun insert_by :: "('a \<Rightarrow> 'a \<Rightarrow> bool) \<Rightarrow> 'a \<Rightarrow> 'a list \<Rightarrow> 'a list" where
  "insert_by le x [] = [x]"
| "insert_by le x (y # ys) = (if le x y then x # y # ys else y # insert_by le x ys)"

definition agg_distinct :: "('a \<Rightarrow> 'a \<Rightarrow> bool) \<Rightarrow> 'a option list \<Rightarrow> 'a list" where
  "agg_distinct le xs = foldr (insert_by le) (remdups (non_null xs)) []"

text \<open>\<open>ORDER BY timestamp DESC\<close> (rows of equal timestamp keep their order).\<close>

definition newest_first :: "('r \<Rightarrow> timestamp) \<Rightarrow> 'r list \<Rightarrow> 'r list" where
  "newest_first ts rs = sort_key (\<lambda>r. - ts r) rs"

text \<open>
  The lateral subquery \<open>recent\<close>: the ten newest events of the same end user under the same
  credential as the row \<open>e\<close> it is joined to.
\<close>

definition recent :: "events_row list \<Rightarrow> events_row \<Rightarrow> events_row list" where
  "recent es e =
     take 10 (newest_first e_timestamp
       [e'. e' \<leftarrow> es, sql_eq (e_user_id e') (e_user_id e) \<and> e_api_key_id e' = e_api_key_id e])"

type_synonym user_joined = "events_row \<times> api_keys_row \<times> nat option \<times> events_row option"

definition user_rows :: "world \<Rightarrow> string \<Rightarrow> string option \<Rightarrow> user_joined list" where
  "user_rows w userId authenticatedUserId =
     [(e, k, dc, r).
        e \<leftarrow> events w, k \<leftarrow> api_keys w, e_api_key_id e = ak_id k,
        dc \<leftarrow> join_user_device_counts (events w) e,
        r \<leftarrow> left_join (recent (events w) e),
        e_user_id e = Some userId \<and>
        (truthy authenticatedUserId \<longrightarrow> Some (ak_user_id k) = authenticatedUserId)]"

fun sql_max :: "timestamp list \<Rightarrow> timestamp option" where
  "sql_max [] = None"
| "sql_max (x # xs) = Some (fold max xs x)"

fun sql_min :: "timestamp list \<Rightarrow> timestamp option" where
  "sql_min [] = None"
| "sql_min (x # xs) = Some (fold min xs x)"

definition recent_event :: "events_row \<Rightarrow> RecentEvent" where
  "recent_event e =
     \<lparr> r_event_name = e_event_name e, r_timestamp = e_timestamp e, r_url = e_url e \<rparr>"

text \<open>
  \<open>GROUP BY e.user_id\<close>: one result row for each end user among the joined rows; \<open>le\<close>
  is the order of \<open>INET\<close>.
\<close>

definition user_result :: "(string \<Rightarrow> string \<Rightarrow> bool) \<Rightarrow> user_joined list \<Rightarrow> UserStats list" where
  "user_result le rs =
     map (\<lambda>u.
            let g = filter (\<lambda>(e, k, dc, r). e_user_id e = u) rs
            in \<lparr> us_userId = u,
                 us_totalEvents = length g,
                 us_uniqueEvents = count_distinct (map (\<lambda>(e, k, dc, r). Some (e_event_name e)) g),
                 us_deviceDetails = object_of e_device (map (\<lambda>(e, k, dc, r). (e, dc)) g),
                 us_ipAddresses = agg_distinct le (map (\<lambda>(e, k, dc, r). e_ip_address e) g),
                 us_lastEventAt = sql_max (map (\<lambda>(e, k, dc, r). e_timestamp e) g),
                 us_firstEventAt = sql_min (map (\<lambda>(e, k, dc, r). e_timestamp e) g),
                 us_recentEvents =
                   map recent_event
                     (newest_first e_timestamp (non_null (map (\<lambda>(e, k, dc, r). r) g))) \<rparr>)
         (remdups (map (\<lambda>(e, k, dc, r). e_user_id e) rs))"

definition userCacheKey :: "UserStatsQuery AuthRequest \<Rightarrow> string" where
  "userCacheKey req =
     ''analytics:user:'' @ q_userId (input req) @ '':'' @ interpolate (userId_of req)"

definition getUserStats ::
  "timestamp \<Rightarrow> world \<Rightarrow> UserStatsQuery AuthRequest \<Rightarrow> json_doc response \<times> world" where
  "getUserStats now w req =
     (let cacheKey = userCacheKey req
      in case cacheGet now w cacheKey of
           Some doc \<Rightarrow> (ok doc (Some True), w)
         | None \<Rightarrow>
             if \<not> db_up w then (failure 500 ''Error retrieving user statistics'', w)
             else
               (case user_result (inet_le w)
                       (user_rows w (q_userId (input req)) (userId_of req)) of
                  [] \<Rightarrow> (failure 404 ''User not found or no events tracked'', w)
                | userData # _ \<Rightarrow>
                    (ok (UserStatsDoc userData) None,
                     cacheSet now w cacheKey (UserStatsDoc userData) 180)))"

section \<open>Request throttle: \<open>eventCollectionLimiter\<close>\<close>

text \<open>
  The limiter's options are the ones of the source: a window of \<open>60 * 1000\<close> ms, a budget of
  1000, and a key that is the \<open>x-api-key\<close> header, else \<open>req.ip\<close>, else \<open>unknown\<close>.
\<close>

definition windowMs :: int where
  "windowMs = 60 * 1000"

definition max_requests :: nat where
  "max_requests = 1000"

definition keyGenerator :: "'p AuthRequest \<Rightarrow> string" where
  "keyGenerator req =
     (case or_else (x_api_key req) (or_else (ip req) (Some ''unknown'')) of
        None \<Rightarrow> ''unknown''
      | Some k \<Rightarrow> k)"

text \<open>
  Modelled from the spec: the counter behind \<open>rateLimit(...)\<close> is the library
  \<open>express-rate-limit\<close>, which is not among the sources. Section 4.2 of the specification
  gives it as a fixed-window counter keyed by an identity string, with a window duration
  and a maximum count: a request beyond the budget is answered \<open>RateLimited\<close> (429, with the
  configured message) and goes no further, and the counter is reset when the window has
  elapsed. The store maps a key to the hits of its open window and the time the window ends;
  a window opens with the first request of a key that has none open.
\<close>

type_synonym hit_store = "string \<rightharpoonup> (nat \<times> timestamp)"

text \<open>The body the limiter is configured to send, with status 429.\<close>

definition rate_limited :: "unit response" where
  "rate_limited = failure 429 ''Event collection rate limit exceeded.''"

definition increment :: "timestamp \<Rightarrow> hit_store \<Rightarrow> string \<Rightarrow> nat \<times> timestamp" where
  "increment now st key =
     (case st key of
        None \<Rightarrow> (1, now + windowMs)
      | Some (hits, resetTime) \<Rightarrow>
          if now < resetTime then (hits + 1, resetTime) else (1, now + windowMs))"

definition eventCollectionLimiter ::
  "timestamp \<Rightarrow> hit_store \<Rightarrow> 'p AuthRequest \<Rightarrow> 'p middleware_result \<times> hit_store" where
  "eventCollectionLimiter now st req =
     (let key = keyGenerator req;
          (hits, resetTime) = increment now st key;
          st' = st(key \<mapsto> (hits, resetTime))
      in if hits > max_requests
         then (Respond (failure 429 ''Event collection rate limit exceeded.''), st')
         else (Next req, st'))"

text \<open>A run of requests through the limiter, each with the time it arrives at.\<close>

fun throttle ::
  "hit_store \<Rightarrow> (timestamp \<times> 'p AuthRequest) list \<Rightarrow> 'p middleware_result list \<times> hit_store" where
  "throttle st [] = ([], st)"
| "throttle st ((now, req) # rest) =
     (let (r, st') = eventCollectionLimiter now st req;
          (rs, st'') = throttle st' rest
      in (r # rs, st''))"

section \<open>A small installation, for concrete runs\<close>

definition demo_user :: users_row where
  "demo_user = \<lparr> u_id = ''u1'', u_google_id = ''g1'', u_email = ''dev@example.com'',
                 u_name = Some ''Dev'' \<rparr>"

definition demo_key :: api_keys_row where
  "demo_key = \<lparr> ak_id = ''k1'', ak_user_id = ''u1'', ak_app_name = ''Demo'',
                ak_app_domain = None, ak_api_key = ''s1'', ak_is_active = Some True,
                ak_expires_at = None, ak_revoked_at = None, ak_last_used_at = None \<rparr>"

definition revoked_key :: api_keys_row where
  "revoked_key = demo_key\<lparr> ak_id := ''k2'', ak_api_key := ''s2'', ak_is_active := Some False,
                            ak_revoked_at := Some 10 \<rparr>"

definition expired_key :: api_keys_row where
  "expired_key = demo_key\<lparr> ak_id := ''k3'', ak_api_key := ''s3'', ak_expires_at := Some 50 \<rparr>"

text \<open>
  The \<open>INET\<close> of this installation reads an IPv4 address in its canonical dotted form,
  four decimal numbers up to 255 without leading zeros, and orders addresses by their four
  numbers.
\<close>

fun split_on :: "char \<Rightarrow> string \<Rightarrow> string list" where
  "split_on c [] = [[]]"
| "split_on c (x # xs) =
     (if x = c then [] # split_on c xs
      else case split_on c xs of [] \<Rightarrow> [[x]] | p # ps \<Rightarrow> (x # p) # ps)"

definition decimal :: "string \<Rightarrow> nat" where
  "decimal s = foldl (\<lambda>n c. 10 * n + (of_char c - 48)) 0 s"

definition octet :: "string \<Rightarrow> nat option" where
  "octet s =
     (if s \<noteq> [] \<and> length s \<le> 3 \<and> list_all (\<lambda>c. c \<in> set ''0123456789'') s \<and>
         (length s = 1 \<or> hd s \<noteq> CHR ''0'') \<and> decimal s \<le> 255
      then Some (decimal s) else None)"

definition dotted_quad :: "string \<Rightarrow> string option" where
  "dotted_quad s =
     (case map octet (split_on CHR ''.'' s) of
        [Some a, Some b, Some c, Some d] \<Rightarrow> Some s
      | _ \<Rightarrow> None)"

fun lex_le :: "nat list \<Rightarrow> nat list \<Rightarrow> bool" where
  "lex_le [] ys = True"
| "lex_le (x # xs) [] = False"
| "lex_le (x # xs) (y # ys) = (x < y \<or> (x = y \<and> lex_le xs ys))"

definition dotted_quad_le :: "string \<Rightarrow> string \<Rightarrow> bool" where
  "dotted_quad_le a b =
     lex_le (map decimal (split_on CHR ''.'' a)) (map decimal (split_on CHR ''.'' b))"

definition demo_world :: world where
  "demo_world = \<lparr> db_up = True, users = [demo_user],
                  api_keys = [demo_key, revoked_key, expired_key], events = [],
                  redis_up = True, redis = Map.empty,
                  inet_in = dotted_quad, inet_le = dotted_quad_le \<rparr>"

definition demo_request :: "string option \<Rightarrow> 'p \<Rightarrow> 'p AuthRequest" where
  "demo_request secret p =
     \<lparr> x_api_key = secret, user_agent = None, x_forwarded_for = None, x_real_ip = None,
       connection_remoteAddress = None, socket_remoteAddress = None, ip = None,
       user = Some demo_user, apiKeyData = None, input = p \<rparr>"

definition click :: "string option \<Rightarrow> CollectBody" where
  "click uid = \<lparr> b_event = ''click'', b_url = None, b_referrer = None,
                 b_device = Some ''mobile'', b_ipAddress = Some ''10.0.0.1'', b_timestamp = None,
                 b_metadata = None, b_user_id = uid \<rparr>"

definition click_request :: "string option \<Rightarrow> CollectBody AuthRequest" where
  "click_request uid =
     (demo_request (Some ''s1'') (click uid))
       \<lparr> apiKeyData := Some \<lparr> ak = demo_key, user_email = ''dev@example.com'' \<rparr> \<rparr>"

definition click_summary :: "SummaryQuery AuthRequest" where
  "click_summary =
     demo_request None
       \<lparr> q_event = ''click'', q_startDate = None, q_endDate = None, q_app_id = None \<rparr>"

definition visitor_stats :: "UserStatsQuery AuthRequest" where
  "visitor_stats = demo_request None \<lparr> q_userId = ''visitor'' \<rparr>"

text \<open>Two clicks of one end user, handled at times 1 and 2.\<close>

definition two_clicks :: world where
  "two_clicks =
     collectEvents demo_world
       [(1, ''e1'', click_request (Some ''visitor'')), (2, ''e2'', click_request (Some ''visitor''))]"

text \<open>
  One click, then a summary query at time 2 that fills the cache, then a second click at
  time 3.
\<close>

definition click_then_summary :: world where
  "click_then_summary =
     snd (getEventSummary 2 (snd (collectEvent 1 ''e1'' demo_world (click_request None)))
            click_summary)"

definition click_summary_click :: world where
  "click_summary_click = snd (collectEvent 3 ''e2'' click_then_summary (click_request None))"

section \<open>Properties of the context enrichment\<close>

lemmas demo_defs = demo_user_def demo_key_def revoked_key_def expired_key_def demo_world_def
  demo_request_def click_def click_request_def click_summary_def

text \<open>
  Claim C7, as stated: a signature that contains both \<open>edg\<close> and \<open>chrome\<close> is classified
  as Edge. The rule for Firefox stands before the rule for Edge, so a signature that also
  contains \<open>firefox\<close> is classified as Firefox: the claim fails at the signature below.
\<close>

theorem parseUserAgent_edge_counterexample:
  "str_includes (toLowerCase ''Chrome Edg Firefox'') ''edg'' \<and>
   str_includes (toLowerCase ''Chrome Edg Firefox'') ''chrome'' \<and>
   browser (parseUserAgent ''Chrome Edg Firefox'') = ''Firefox''"
  by code_simp

text \<open>
  Claim C7, amended: a signature that contains both \<open>edg\<close> and \<open>chrome\<close> (after
  lower-casing) is never classified as Chrome; it is classified as Edge unless it also
  contains \<open>firefox\<close>, and then as Firefox.
\<close>

theorem parseUserAgent_edge_precedence:
  "str_includes (toLowerCase s) ''edg'' \<Longrightarrow> str_includes (toLowerCase s) ''chrome'' \<Longrightarrow>
   browser (parseUserAgent s) \<noteq> ''Chrome'' \<and>
   browser (parseUserAgent s) =
     (if str_includes (toLowerCase s) ''firefox'' then ''Firefox'' else ''Edge'')"
  by (simp add: parseUserAgent_def Let_def)

theorem parseUserAgent_edge_precedence_witness:
  "str_includes (toLowerCase ''Chrome/120 Safari/537 Edg/120'') ''edg'' \<and>
   str_includes (toLowerCase ''Chrome/120 Safari/537 Edg/120'') ''chrome'' \<and>
   browser (parseUserAgent ''Chrome/120 Safari/537 Edg/120'') = ''Edge''"
proof -
  have a: "str_includes (toLowerCase ''Chrome/120 Safari/537 Edg/120'') ''edg''"
    by code_simp
  have b: "str_includes (toLowerCase ''Chrome/120 Safari/537 Edg/120'') ''chrome''"
    by code_simp
  have c: "\<not> str_includes (toLowerCase ''Chrome/120 Safari/537 Edg/120'') ''firefox''"
    by code_simp
  from parseUserAgent_edge_precedence [OF a b] a b c show ?thesis by simp
qed

section \<open>Properties of the credential validator\<close>

lemma lookup_api_key_set:
  "set (lookup_api_key now w s) =
     {\<lparr> ak = k, user_email = u_email u \<rparr> | k u.
        k \<in> set (api_keys w) \<and> u \<in> set (users w) \<and> ak_user_id k = u_id u \<and>
        ak_api_key k = s \<and> usable now k}"
proof -
  have same: "\<And>k u. ak_user_id k = u_id u \<Longrightarrow> k\<lparr> ak_user_id := u_id u \<rparr> = k"
    by simp
  show ?thesis
    unfolding lookup_api_key_def
    by (auto simp: same split: if_splits)
qed

lemma lookup_api_key_empty:
  assumes "\<forall>k\<in>set (api_keys w). \<exists>u\<in>set (users w). u_id u = ak_user_id k"
  shows "lookup_api_key now w s = [] \<longleftrightarrow>
         \<not> (\<exists>k\<in>set (api_keys w). ak_api_key k = s \<and> usable now k)"
proof -
  have "lookup_api_key now w s = [] \<longleftrightarrow> set (lookup_api_key now w s) = {}" by simp
  also have "\<dots> \<longleftrightarrow> \<not> (\<exists>k\<in>set (api_keys w). ak_api_key k = s \<and> usable now k)"
    unfolding lookup_api_key_set using assms by fastforce
  finally show ?thesis .
qed

lemma usable_iff:
  "usable now k \<longleftrightarrow>
     ak_is_active k = Some True \<and>
     (ak_expires_at k = None \<or> (\<exists>t. ak_expires_at k = Some t \<and> t > now))"
  by (auto simp: usable_def split: option.splits)

text \<open>
  Claim C2: with a secret in the header and the store answering, \<open>validateApiKey\<close> hands
  the request on exactly when some credential has that secret, is active, and has no expiry
  or one after now; the credential it attaches is such a one. Every other secret (unknown,
  inactive or expired) gets the 401 answer. The foreign key of \<open>api_keys.user_id\<close> is the
  hypothesis \<open>fk\<close>.
\<close>

theorem validateApiKey_accepts_exactly_usable:
  assumes up: "db_up w"
      and key: "x_api_key req = Some s" "s \<noteq> []"
      and fk: "\<forall>k\<in>set (api_keys w). \<exists>u\<in>set (users w). u_id u = ak_user_id k"
  shows "if \<exists>k\<in>set (api_keys w). ak_api_key k = s \<and> ak_is_active k = Some True \<and>
               (ak_expires_at k = None \<or> (\<exists>t. ak_expires_at k = Some t \<and> t > now))
         then \<exists>d w'. validateApiKey now w req = (Next (req\<lparr> apiKeyData := Some d \<rparr>), w') \<and>
                ak d \<in> set (api_keys w) \<and> ak_api_key (ak d) = s \<and>
                ak_is_active (ak d) = Some True \<and>
                (ak_expires_at (ak d) = None \<or> (\<exists>t. ak_expires_at (ak d) = Some t \<and> t > now))
         else validateApiKey now w req =
                (Respond (failure 401 ''Invalid or expired API key.''), w)"
proof (cases "lookup_api_key now w s")
  case Nil
  with lookup_api_key_empty [OF fk, of now s]
  have "\<not> (\<exists>k\<in>set (api_keys w). ak_api_key k = s \<and> usable now k)" by simp
  then show ?thesis using Nil up key by (simp add: validateApiKey_def usable_iff)
next
  case (Cons d ds)
  then have "d \<in> set (lookup_api_key now w s)" by simp
  then obtain k and u :: users_row where d: "d = \<lparr> ak = k, user_email = u_email u \<rparr>"
    and k: "k \<in> set (api_keys w)" "ak_api_key k = s" "usable now k"
    unfolding lookup_api_key_set mem_Collect_eq by blast
  have "validateApiKey now w req =
          (Next (req\<lparr> apiKeyData := Some d \<rparr>), touch_last_used now (ak_id (ak d)) w)"
    using Cons up key by (simp add: validateApiKey_def)
  moreover have "\<exists>k\<in>set (api_keys w). ak_api_key k = s \<and> ak_is_active k = Some True \<and>
               (ak_expires_at k = None \<or> (\<exists>t. ak_expires_at k = Some t \<and> t > now))"
    using k usable_iff by blast
  ultimately show ?thesis using d k usable_iff [of now k] by auto
qed

theorem validateApiKey_accepts_exactly_usable_witness:
  "(\<exists>d w'. validateApiKey 100 demo_world (demo_request (Some ''s1'') ()) =
             (Next ((demo_request (Some ''s1'') ())\<lparr> apiKeyData := Some d \<rparr>), w') \<and>
           ak_api_key (ak d) = ''s1'') \<and>
   validateApiKey 100 demo_world (demo_request (Some ''s2'') ()) =
     (Respond (failure 401 ''Invalid or expired API key.''), demo_world) \<and>
   validateApiKey 100 demo_world (demo_request (Some ''s3'') ()) =
     (Respond (failure 401 ''Invalid or expired API key.''), demo_world) \<and>
   validateApiKey 100 demo_world (demo_request (Some ''nope'') ()) =
     (Respond (failure 401 ''Invalid or expired API key.''), demo_world)"
proof -
  have up: "db_up demo_world" by (simp add: demo_defs)
  have fk: "\<forall>k\<in>set (api_keys demo_world). \<exists>u\<in>set (users demo_world). u_id u = ak_user_id k"
    by (simp add: demo_defs)
  have k: "\<And>s. x_api_key (demo_request (Some s) ()) = Some s" by (simp add: demo_defs)
  note t = validateApiKey_accepts_exactly_usable [OF up k _ fk, of _ 100]
  have "\<exists>d w'. validateApiKey 100 demo_world (demo_request (Some ''s1'') ()) =
             (Next ((demo_request (Some ''s1'') ())\<lparr> apiKeyData := Some d \<rparr>), w') \<and>
           ak_api_key (ak d) = ''s1''"
    using t [of "''s1''"] by (auto simp: demo_defs)
  then show ?thesis
    using t [of "''s2''"] t [of "''s3''"] t [of "''nope''"] by (simp add: demo_defs)
qed

text \<open>
  Claim C4, as stated: every rejected validation gets the same 401 message, a missing
  header included. The handler answers a missing header with a message of its own, so the
  rejection of a request without header differs from the rejection of a revoked credential.
\<close>

theorem validateApiKey_rejections_differ_counterexample:
  "fst (validateApiKey 100 demo_world (demo_request None ())) =
     Respond (failure 401 ''API key is required. Please include X-API-Key header.'') \<and>
   fst (validateApiKey 100 demo_world (demo_request (Some ''s2'') ())) =
     Respond (failure 401 ''Invalid or expired API key.'') \<and>
   fst (validateApiKey 100 demo_world (demo_request None ())) \<noteq>
     fst (validateApiKey 100 demo_world (demo_request (Some ''s2'') ()))"
  by (simp add: validateApiKey_def lookup_api_key_def usable_def failure_def demo_defs)

text \<open>
  Claim C4, amended: any two rejected validations of requests that carry a secret, whatever
  the cause (unknown, inactive or expired credential), get the same answer, 401 with the one
  message \<open>Invalid or expired API key.\<close>; a request without the header is rejected with
  401 as well, with the message that the key is required.
\<close>

theorem validateApiKey_uniform_rejection:
  "(db_up w1 \<and> x_api_key r1 = Some s1 \<and> s1 \<noteq> [] \<and> fst (validateApiKey n1 w1 r1) = Respond a1 \<and>
    db_up w2 \<and> x_api_key r2 = Some s2 \<and> s2 \<noteq> [] \<and> fst (validateApiKey n2 w2 r2) = Respond a2
    \<longrightarrow> a1 = a2 \<and> a1 = failure 401 ''Invalid or expired API key.'') \<and>
   (x_api_key r = None \<longrightarrow>
      fst (validateApiKey n w r) =
        Respond (failure 401 ''API key is required. Please include X-API-Key header.''))"
  by (auto simp: validateApiKey_def split: list.splits)

theorem validateApiKey_uniform_rejection_witness:
  "fst (validateApiKey 100 demo_world (demo_request (Some ''s2'') ())) =
     fst (validateApiKey 100 demo_world (demo_request (Some ''s3'') ())) \<and>
   fst (validateApiKey 100 demo_world (demo_request (Some ''s3'') ())) =
     fst (validateApiKey 100 demo_world (demo_request (Some ''nope'') ())) \<and>
   fst (validateApiKey 100 demo_world (demo_request (Some ''nope'') ())) =
     Respond (failure 401 ''Invalid or expired API key.'')"
proof -
  have r2: "fst (validateApiKey 100 demo_world (demo_request (Some ''s2'') ())) =
              Respond (failure 401 ''Invalid or expired API key.'')"
    by (simp add: validateApiKey_def lookup_api_key_def usable_def demo_defs)
  have r3: "fst (validateApiKey 100 demo_world (demo_request (Some ''s3'') ())) =
              Respond (failure 401 ''Invalid or expired API key.'')"
    by (simp add: validateApiKey_def lookup_api_key_def usable_def demo_defs)
  have r4: "fst (validateApiKey 100 demo_world (demo_request (Some ''nope'') ())) =
              Respond (failure 401 ''Invalid or expired API key.'')"
    by (simp add: validateApiKey_def lookup_api_key_def usable_def demo_defs)
  have up: "db_up demo_world" by (simp add: demo_defs)
  have k: "\<And>s. x_api_key (demo_request (Some s) ()) = Some s" by (simp add: demo_defs)
  from validateApiKey_uniform_rejection
         [of demo_world "demo_request (Some ''s2'') ()" "''s2''" 100 _
             demo_world "demo_request (Some ''s3'') ()" "''s3''" 100 _]
       r2 r3 r4 up k
  show ?thesis by simp
qed

text \<open>
  Claim C10: \<open>optionalApiKey\<close> never answers the request itself; it always calls
  \<open>next()\<close>. When the lookup fails, because the header is absent or empty, because the store
  rejects the query, or because no usable credential has the secret, the request goes on
  as it came, with no credential attached to it.
\<close>

theorem optionalApiKey_absorbs_every_failure:
  "(\<forall>a. optionalApiKey now w req \<noteq> Respond a) \<and>
   (\<not> truthy (x_api_key req) \<or> \<not> db_up w \<or>
    (\<forall>s. x_api_key req = Some s \<longrightarrow>
       \<not> (\<exists>k\<in>set (api_keys w). ak_api_key k = s \<and> usable now k))
    \<longrightarrow> optionalApiKey now w req = Next req)"
proof -
  have "lookup_api_key now w s = []"
    if "\<not> (\<exists>k\<in>set (api_keys w). ak_api_key k = s \<and> usable now k)" for s
  proof -
    from that have "set (lookup_api_key now w s) = {}"
      unfolding lookup_api_key_set by blast
    then show ?thesis by simp
  qed
  then show ?thesis
    by (auto simp: optionalApiKey_def truthy_def split: option.splits list.splits)
qed

theorem optionalApiKey_absorbs_every_failure_witness:
  "optionalApiKey 100 (demo_world\<lparr> db_up := False \<rparr>) (demo_request (Some ''s1'') ()) =
     Next (demo_request (Some ''s1'') ()) \<and>
   optionalApiKey 100 demo_world (demo_request (Some ''s2'') ()) =
     Next (demo_request (Some ''s2'') ()) \<and>
   optionalApiKey 100 demo_world (demo_request None ()) = Next (demo_request None ())"
proof -
  have down: "\<not> db_up (demo_world\<lparr> db_up := False \<rparr>)" by simp
  have absent: "\<not> truthy (x_api_key (demo_request None ()))"
    by (simp add: truthy_def demo_defs)
  have revoked: "\<forall>s. x_api_key (demo_request (Some ''s2'') ()) = Some s \<longrightarrow>
       \<not> (\<exists>k\<in>set (api_keys demo_world). ak_api_key k = s \<and> usable 100 k)"
    by (simp add: usable_def demo_defs)
  from optionalApiKey_absorbs_every_failure
         [of 100 "demo_world\<lparr> db_up := False \<rparr>" "demo_request (Some ''s1'') ()"]
       optionalApiKey_absorbs_every_failure [of 100 demo_world "demo_request (Some ''s2'') ()"]
       optionalApiKey_absorbs_every_failure [of 100 demo_world "demo_request None ()"]
       down absent revoked
  show ?thesis by blast
qed

section \<open>Concrete runs of the write path and the read path\<close>

lemma dotted_quad_demo [simp]: "dotted_quad ''10.0.0.1'' = Some ''10.0.0.1''"
  by (simp add: dotted_quad_def octet_def decimal_def)

lemmas run_defs = collectEvent_def event_values_def insert_events_def varchar_def nullable_def agg_distinct_def
  getEventSummary_def getUserStats_def cacheGet_def
  cacheSet_def cacheDeletePattern_def summaryCacheKey_def userCacheKey_def userId_of_def
  interpolate_def or_all_def or_else_def truthy_def ok_def failure_def zero_summary_def
  summary_rows_def summary_result_def summary_where_def user_rows_def user_result_def
  join_counts_def counts_by_def group_count_def left_join_def sql_eq_def non_null_def
  count_distinct_def json_object_agg_def object_of_def user_device_counts_def
  join_user_device_counts_def recent_def newest_first_def recent_event_def
  extractIpAddress_def

lemma parse_unknown: "parseUserAgent ''unknown'' =
    \<lparr> browser = ''Unknown'', os = ''Unknown'', device = ''desktop'' \<rparr>"
  by code_simp

text \<open>
  A write whose request carries no address resolves the address to the text \<open>unknown\<close>,
  which is no \<open>INET\<close>: the store refuses the row and the answer is 500.
\<close>

lemma collectEvent_refuses_unknown_address:
  "collectEvent 1 ''e1'' demo_world
     ((click_request None)\<lparr> input := (click None)\<lparr> b_ipAddress := None \<rparr> \<rparr>) =
     (failure 500 ''Error collecting event'', demo_world)"
  by (simp add: run_defs demo_defs parse_unknown trim_def first_entry_def dotted_quad_def
        octet_def Let_def)

lemma glob_summary_key:
  "\<not> glob_match ''analytics:k1:*'' ''analytics:summary:click:all:all:all:u1''"
  by simp

lemma click_then_summary_cache:
  "redis click_then_summary ''analytics:summary:click:all:all:all:u1'' =
     Some (SummaryDoc \<lparr> s_event = ''click'', s_count = 1, s_uniqueUsers = 0, s_uniqueIps = 1,
             s_deviceData = [(''mobile'', Some 1)], s_browserData = [(''Unknown'', Some 1)],
             s_osData = [(''Unknown'', Some 1)] \<rparr>, 300002)"
  by (simp add: click_then_summary_def run_defs demo_defs parse_unknown Let_def)

text \<open>
  Claim C1 at a concrete run: a click is written, a summary query caches its result
  (count 1), a second click is written under the same credential with answer 201. The
  writer's pattern \<open>analytics:k1:*\<close> does not match the summary's key
  \<open>analytics:summary:click:all:all:all:u1\<close>, so the entry is still there, and the next read
  is served from the cache with the old count although two events are stored.
\<close>

theorem collectEvent_leaves_summary_cached:
  "status (fst (collectEvent 3 ''e2'' click_then_summary (click_request None))) = 201 \<and>
   length (filter (\<lambda>e. e_event_name e = ''click'') (events click_summary_click)) = 2 \<and>
   cached (fst (getEventSummary 4 click_summary_click click_summary)) = Some True \<and>
   map_option (\<lambda>d. case d of SummaryDoc s \<Rightarrow> s_count s | UserStatsDoc u \<Rightarrow> 0)
     (data (fst (getEventSummary 4 click_summary_click click_summary))) = Some 1"
proof -
  have ev: "map e_event_name (events click_then_summary) = [''click'']"
    by (simp add: click_then_summary_def run_defs demo_defs parse_unknown Let_def)
  have up: "db_up click_then_summary" "redis_up click_then_summary"
    "api_keys click_then_summary = api_keys demo_world"
    "inet_in click_then_summary = dotted_quad"
    by (simp_all add: click_then_summary_def run_defs demo_defs parse_unknown Let_def)
  have w: "collectEvent 3 ''e2'' click_then_summary (click_request None) =
             (\<lparr> status = 201, success = True, message = Some ''Event collected successfully'',
                data = Some \<lparr> c_id = ''e2'', c_created_at = 3 \<rparr>, cached = None \<rparr>,
              click_summary_click)"
    using up
    by (simp add: click_summary_click_def collectEvent_def event_values_def insert_events_def varchar_def
          nullable_def or_else_def truthy_def demo_defs parse_unknown Let_def)
  have a: "status (fst (collectEvent 3 ''e2'' click_then_summary (click_request None))) = 201"
    by (simp add: w)
  have b: "length (filter (\<lambda>e. e_event_name e = ''click'') (events click_summary_click)) = 2"
  proof -
    have "map e_event_name (events click_summary_click) = [''click'', ''click'']"
      using up ev
      by (simp add: click_summary_click_def collectEvent_def event_values_def insert_events_def varchar_def
            nullable_def or_else_def truthy_def demo_defs parse_unknown cacheDeletePattern_def
            Let_def)
    then have "length (filter (\<lambda>n. n = ''click'') (map e_event_name (events click_summary_click))) = 2"
      by simp
    then show ?thesis by (simp add: filter_map o_def)
  qed
  have c: "cacheGet 4 click_summary_click ''analytics:summary:click:all:all:all:u1'' =
             Some (SummaryDoc \<lparr> s_event = ''click'', s_count = 1, s_uniqueUsers = 0,
               s_uniqueIps = 1, s_deviceData = [(''mobile'', Some 1)],
               s_browserData = [(''Unknown'', Some 1)], s_osData = [(''Unknown'', Some 1)] \<rparr>)"
    using up click_then_summary_cache glob_summary_key
    by (simp add: click_summary_click_def collectEvent_def event_values_def insert_events_def varchar_def
          nullable_def or_else_def truthy_def demo_defs parse_unknown cacheDeletePattern_def
          cacheGet_def Let_def)
  have k: "summaryCacheKey click_summary = ''analytics:summary:click:all:all:all:u1''"
    by (simp add: run_defs demo_defs)
  from a b c k show ?thesis
    by (simp add: getEventSummary_def ok_def)
qed

lemma two_clicks_events:
  "events two_clicks =
     [\<lparr> e_id = ''e1'', e_api_key_id = ''k1'', e_event_name = ''click'', e_url = None,
        e_referrer = None, e_device = Some ''mobile'', e_ip_address = Some ''10.0.0.1'',
        e_user_agent = Some ''unknown'', e_browser = Some ''Unknown'', e_os = Some ''Unknown'',
        e_screen_size = None, e_user_id = Some ''visitor'',
        e_metadata = [(''userAgent'', ''unknown'')], e_timestamp = 1, e_created_at = 1 \<rparr>,
      \<lparr> e_id = ''e2'', e_api_key_id = ''k1'', e_event_name = ''click'', e_url = None,
        e_referrer = None, e_device = Some ''mobile'', e_ip_address = Some ''10.0.0.1'',
        e_user_agent = Some ''unknown'', e_browser = Some ''Unknown'', e_os = Some ''Unknown'',
        e_screen_size = None, e_user_id = Some ''visitor'',
        e_metadata = [(''userAgent'', ''unknown'')], e_timestamp = 2, e_created_at = 2 \<rparr>]"
  by (simp add: two_clicks_def run_defs demo_defs parse_unknown Let_def)

lemma two_clicks_rest:
  "db_up two_clicks" "api_keys two_clicks = api_keys demo_world"
  "redis two_clicks key = None" "inet_le two_clicks = dotted_quad_le"
  by (simp_all add: two_clicks_def run_defs demo_defs parse_unknown Let_def)

text \<open>
  Claim C5 at a concrete run: an end user with two events under one credential. The lateral
  join pairs each of the two events with both rows of \<open>recent\<close>, so \<open>COUNT(*)\<close> counts
  four joined rows and \<open>recentEvents\<close> lists each event twice, while the user has two events
  in scope.
\<close>

theorem getUserStats_counts_joined_rows:
  "length (filter (\<lambda>e. e_user_id e = Some ''visitor'') (events two_clicks)) = 2 \<and>
   data (fst (getUserStats 5 two_clicks visitor_stats)) =
     Some (UserStatsDoc
       \<lparr> us_userId = Some ''visitor'', us_totalEvents = 4, us_uniqueEvents = 1,
         us_deviceDetails = [(''mobile'', Some 2)], us_ipAddresses = [''10.0.0.1''],
         us_lastEventAt = Some 2, us_firstEventAt = Some 1,
         us_recentEvents =
           [\<lparr> r_event_name = ''click'', r_timestamp = 2, r_url = None \<rparr>,
            \<lparr> r_event_name = ''click'', r_timestamp = 2, r_url = None \<rparr>,
            \<lparr> r_event_name = ''click'', r_timestamp = 1, r_url = None \<rparr>,
            \<lparr> r_event_name = ''click'', r_timestamp = 1, r_url = None \<rparr>] \<rparr>)"
proof -
  have a: "length (filter (\<lambda>e. e_user_id e = Some ''visitor'') (events two_clicks)) = 2"
    by (simp add: two_clicks_events)
  have b: "user_result (inet_le two_clicks) (user_rows two_clicks ''visitor'' (Some ''u1'')) =
     [\<lparr> us_userId = Some ''visitor'', us_totalEvents = 4, us_uniqueEvents = 1,
         us_deviceDetails = [(''mobile'', Some 2)], us_ipAddresses = [''10.0.0.1''],
         us_lastEventAt = Some 2, us_firstEventAt = Some 1,
         us_recentEvents =
           [\<lparr> r_event_name = ''click'', r_timestamp = 2, r_url = None \<rparr>,
            \<lparr> r_event_name = ''click'', r_timestamp = 2, r_url = None \<rparr>,
            \<lparr> r_event_name = ''click'', r_timestamp = 1, r_url = None \<rparr>,
            \<lparr> r_event_name = ''click'', r_timestamp = 1, r_url = None \<rparr>] \<rparr>]"
    by (simp add: two_clicks_events two_clicks_rest run_defs demo_defs Let_def)
  have c: "cacheGet 5 two_clicks (userCacheKey visitor_stats) = None"
    by (simp add: cacheGet_def two_clicks_rest)
  have d: "q_userId (input visitor_stats) = ''visitor''" "userId_of visitor_stats = Some ''u1''"
    by (simp_all add: visitor_stats_def userId_of_def demo_defs)
  from a b c d two_clicks_rest(1) show ?thesis
    by (simp add: getUserStats_def ok_def)
qed

text \<open>
  Claim C9, as stated: the repeat of an identical summary query within the TTL, with no
  write in between, is tagged \<open>cached = true\<close>. A query that matches no row is answered with
  the zero-valued summary before anything is written to the cache, so its repeat is computed
  again and carries no \<open>cached\<close> flag.
\<close>

theorem getEventSummary_repeat_uncached_counterexample:
  "status (fst (getEventSummary 1 demo_world click_summary)) = 200 \<and>
   snd (getEventSummary 1 demo_world click_summary) = demo_world \<and>
   cached (fst (getEventSummary 2 (snd (getEventSummary 1 demo_world click_summary))
                  click_summary)) \<noteq> Some True"
proof -
  have "getEventSummary t demo_world click_summary =
          (ok (SummaryDoc (zero_summary ''click'')) None, demo_world)" for t
    by (simp add: run_defs demo_defs Let_def)
  then show ?thesis by (simp add: ok_def)
qed

section \<open>Properties of the aggregation engine\<close>





lemma summary_result_count_pos:
  assumes "r \<in> set (summary_result rs)"
  shows "s_count r > 0"
proof -
  have "\<forall>r\<in>set (summary_result rs). s_count r \<noteq> 0"
    unfolding summary_result_def
    by (simp add: Let_def filter_empty_conv split_beta) blast
  with assms show ?thesis by auto
qed

text \<open>
  Claim C9, amended: when a summary query is computed from the store (cache miss, store and
  cache reachable), the identical query repeated within the 300 seconds of the TTL on the
  state the first one left returns the same aggregate content as the original compute. The
  repeat is tagged \<open>cached = true\<close> exactly when the original compute found at least one
  matching row; a zero-row result is not cached, and its repeat is computed again without
  the tag.
\<close>

theorem getEventSummary_repeat_within_ttl:
  assumes up: "db_up w" "redis_up w"
      and miss: "cacheGet t0 w (summaryCacheKey req) = None"
      and ttl: "t0 \<le> t1" "t1 < t0 + 300 * 1000"
  shows "\<exists>s. fst (getEventSummary t0 w req) = ok (SummaryDoc s) None \<and>
             fst (getEventSummary t1 (snd (getEventSummary t0 w req)) req) =
               ok (SummaryDoc s) (if s_count s > 0 then Some True else None)"
proof (cases "summary_result (summary_rows w (input req) (userId_of req))")
  case Nil
  have first: "getEventSummary t0 w req =
                 (ok (SummaryDoc (zero_summary (q_event (input req)))) None, w)"
    using Nil up miss by (simp add: getEventSummary_def)
  have "cacheGet t1 w (summaryCacheKey req) = None"
    using miss ttl(1) by (auto simp: cacheGet_def split: if_splits option.splits)
  then have "getEventSummary t1 w req =
                 (ok (SummaryDoc (zero_summary (q_event (input req)))) None, w)"
    using Nil up by (simp add: getEventSummary_def)
  with first show ?thesis
    by (intro exI [of _ "zero_summary (q_event (input req))"]) (simp add: zero_summary_def)
next
  case (Cons row rest)
  have first: "getEventSummary t0 w req =
                 (ok (SummaryDoc row) None,
                  cacheSet t0 w (summaryCacheKey req) (SummaryDoc row) 300)"
    using Cons up miss by (simp add: getEventSummary_def)
  have "cacheGet t1 (cacheSet t0 w (summaryCacheKey req) (SummaryDoc row) 300)
          (summaryCacheKey req) = Some (SummaryDoc row)"
    using up(2) ttl(2) by (simp add: cacheGet_def cacheSet_def)
  then have second: "fst (getEventSummary t1
                       (cacheSet t0 w (summaryCacheKey req) (SummaryDoc row) 300) req) =
                     ok (SummaryDoc row) (Some True)"
    by (simp add: getEventSummary_def)
  have "s_count row > 0"
    using Cons
      summary_result_count_pos [of row "summary_rows w (input req) (userId_of req)"]
    by simp
  with first second show ?thesis
    by (intro exI [of _ row]) simp
qed

theorem getEventSummary_repeat_within_ttl_witness:
  "(\<exists>s. fst (getEventSummary 5 two_clicks click_summary) = ok (SummaryDoc s) None \<and>
        s_count s = 2 \<and>
        fst (getEventSummary 6 (snd (getEventSummary 5 two_clicks click_summary)) click_summary) =
          ok (SummaryDoc s) (Some True)) \<and>
   (\<exists>s. fst (getEventSummary 5 demo_world click_summary) = ok (SummaryDoc s) None \<and>
        s_count s = 0 \<and>
        fst (getEventSummary 6 (snd (getEventSummary 5 demo_world click_summary)) click_summary) =
          ok (SummaryDoc s) None)"
proof -
  have up: "db_up two_clicks" "redis_up two_clicks" "db_up demo_world" "redis_up demo_world"
    by (simp_all add: two_clicks_rest two_clicks_def run_defs demo_defs parse_unknown Let_def)
  have m1: "cacheGet 5 two_clicks (summaryCacheKey click_summary) = None"
    by (simp add: cacheGet_def two_clicks_rest)
  have m2: "cacheGet 5 demo_world (summaryCacheKey click_summary) = None"
    by (simp add: cacheGet_def demo_world_def)
  have c1: "\<And>s. fst (getEventSummary 5 two_clicks click_summary) = ok (SummaryDoc s) None
              \<Longrightarrow> s_count s = 2"
    using m1 up
    by (auto simp: getEventSummary_def two_clicks_events two_clicks_rest run_defs demo_defs Let_def)
  have c2: "\<And>s. fst (getEventSummary 5 demo_world click_summary) = ok (SummaryDoc s) None
              \<Longrightarrow> s_count s = 0"
    by (auto simp: run_defs demo_defs Let_def)
  from getEventSummary_repeat_within_ttl [OF up(1,2) m1, of 6]
  obtain s1 where s1: "fst (getEventSummary 5 two_clicks click_summary) = ok (SummaryDoc s1) None"
    "fst (getEventSummary 6 (snd (getEventSummary 5 two_clicks click_summary)) click_summary) =
       ok (SummaryDoc s1) (if s_count s1 > 0 then Some True else None)"
    by auto
  from getEventSummary_repeat_within_ttl [OF up(3,4) m2, of 6]
  obtain s2 where s2: "fst (getEventSummary 5 demo_world click_summary) = ok (SummaryDoc s2) None"
    "fst (getEventSummary 6 (snd (getEventSummary 5 demo_world click_summary)) click_summary) =
       ok (SummaryDoc s2) (if s_count s2 > 0 then Some True else None)"
    by auto
  from s1 c1 [OF s1(1)] have "\<exists>s. fst (getEventSummary 5 two_clicks click_summary) = ok (SummaryDoc s) None \<and>
        s_count s = 2 \<and>
        fst (getEventSummary 6 (snd (getEventSummary 5 two_clicks click_summary)) click_summary) =
          ok (SummaryDoc s) (Some True)" by auto
  moreover from s2 c2 [OF s2(1)] have "\<exists>s. fst (getEventSummary 5 demo_world click_summary) = ok (SummaryDoc s) None \<and>
        s_count s = 0 \<and>
        fst (getEventSummary 6 (snd (getEventSummary 5 demo_world click_summary)) click_summary) =
          ok (SummaryDoc s) None" by auto
  ultimately show ?thesis by blast
qed

section \<open>Properties of the request throttle\<close>

lemma limiter_open_window:
  assumes "st (keyGenerator req) = Some (n, resetTime)" "now < resetTime"
  shows "eventCollectionLimiter now st req =
           (if n < max_requests then Next req else Respond rate_limited,
            st(keyGenerator req \<mapsto> (n + 1, resetTime)))"
  using assms by (simp add: eventCollectionLimiter_def increment_def rate_limited_def)

lemma limiter_closed_window:
  assumes "case st (keyGenerator req) of None \<Rightarrow> True | Some (h, resetTime) \<Rightarrow> resetTime \<le> now"
  shows "eventCollectionLimiter now st req =
           (Next req, st(keyGenerator req \<mapsto> (1, now + windowMs)))"
  using assms
  by (auto simp: eventCollectionLimiter_def increment_def max_requests_def split: option.splits)

lemma throttle_open_window:
  assumes "st k = Some (n, resetTime)"
      and "\<forall>(t, r)\<in>set reqs. keyGenerator r = k \<and> t < resetTime"
  shows "length (fst (throttle st reqs)) = length reqs \<and>
         (\<forall>i<length reqs. fst (throttle st reqs) ! i =
            (if n + i < max_requests then Next (snd (reqs ! i)) else Respond rate_limited)) \<and>
         snd (throttle st reqs) k = Some (n + length reqs, resetTime)"
  using assms
proof (induction reqs arbitrary: st n)
  case Nil
  then show ?case by simp
next
  case (Cons a reqs)
  obtain t r where a: "a = (t, r)" by (cases a)
  from Cons.prems a have k: "keyGenerator r = k" and t: "t < resetTime" by auto
  let ?st = "st(k \<mapsto> (n + 1, resetTime))"
  have step: "eventCollectionLimiter t st r =
                (if n < max_requests then Next r else Respond rate_limited, ?st)"
    using limiter_open_window [where st = st and req = r and n = n and resetTime = resetTime and now = t] Cons.prems(1) k t by simp
  have "?st k = Some (n + 1, resetTime)" by simp
  moreover have "\<forall>(t, r)\<in>set reqs. keyGenerator r = k \<and> t < resetTime"
    using Cons.prems(2) by simp
  ultimately have ih:
    "length (fst (throttle ?st reqs)) = length reqs \<and>
     (\<forall>i<length reqs. fst (throttle ?st reqs) ! i =
        (if n + 1 + i < max_requests then Next (snd (reqs ! i)) else Respond rate_limited)) \<and>
     snd (throttle ?st reqs) k = Some (n + 1 + length reqs, resetTime)"
    by (rule Cons.IH)
  have unfold: "throttle st (a # reqs) =
                  ((if n < max_requests then Next r else Respond rate_limited)
                     # fst (throttle ?st reqs),
                   snd (throttle ?st reqs))"
    using step a by (simp add: split_beta)
  show ?case
  proof (intro conjI allI impI)
    show "length (fst (throttle st (a # reqs))) = length (a # reqs)"
      using unfold ih by simp
    show "snd (throttle st (a # reqs)) k = Some (n + length (a # reqs), resetTime)"
      using unfold ih by simp
    fix i assume "i < length (a # reqs)"
    then show "fst (throttle st (a # reqs)) ! i =
        (if n + i < max_requests then Next (snd ((a # reqs) ! i)) else Respond rate_limited)"
      using unfold ih a by (cases i) auto
  qed
qed

text \<open>
  Claim C6: the limiter's key is the \<open>x-api-key\<close> header, else the caller's address, else
  \<open>unknown\<close>. Take a key with no window open at \<open>t0\<close>, a request of that key at
  \<open>t0\<close> and any further requests of that key before \<open>t0 + 60000\<close>. In arrival order the
  first 1000 of them are handed on, and every later one, the 1001st first, is answered 429
  and not handed on. A request of the key at or after \<open>t0 + 60000\<close> is handed on again.
\<close>

theorem eventCollectionLimiter_fixed_window:
  assumes closed: "case st k of None \<Rightarrow> True | Some (h, resetTime) \<Rightarrow> resetTime \<le> t0"
      and first: "keyGenerator r0 = k"
      and window: "\<forall>(t, r)\<in>set reqs. keyGenerator r = k \<and> t0 \<le> t \<and> t < t0 + 60000"
      and later: "keyGenerator r1 = k" "t0 + 60000 \<le> t1"
  shows "keyGenerator r0 =
           (if truthy (x_api_key r0) then the (x_api_key r0)
            else if truthy (ip r0) then the (ip r0) else ''unknown'') \<and>
         (\<forall>i\<le>length reqs. fst (throttle st ((t0, r0) # reqs)) ! i =
            (if i < 1000 then Next (snd (((t0, r0) # reqs) ! i))
             else Respond (failure 429 ''Event collection rate limit exceeded.''))) \<and>
         fst (eventCollectionLimiter t1 (snd (throttle st ((t0, r0) # reqs))) r1) = Next r1"
proof (intro conjI allI impI)
  show "keyGenerator r0 =
           (if truthy (x_api_key r0) then the (x_api_key r0)
            else if truthy (ip r0) then the (ip r0) else ''unknown'')"
    by (auto simp: keyGenerator_def or_else_def truthy_def split: option.splits)
next
  let ?st = "st(k \<mapsto> (1, t0 + windowMs))"
  have step: "eventCollectionLimiter t0 st r0 = (Next r0, ?st)"
    using limiter_closed_window [where st = st and req = r0 and now = t0] closed first by simp
  have "?st k = Some (1, t0 + windowMs)" by simp
  moreover have "\<forall>(t, r)\<in>set reqs. keyGenerator r = k \<and> t < t0 + windowMs"
    using window by (auto simp: windowMs_def)
  ultimately have run:
    "length (fst (throttle ?st reqs)) = length reqs \<and>
     (\<forall>i<length reqs. fst (throttle ?st reqs) ! i =
        (if 1 + i < max_requests then Next (snd (reqs ! i)) else Respond rate_limited)) \<and>
     snd (throttle ?st reqs) k = Some (1 + length reqs, t0 + windowMs)"
    by (rule throttle_open_window)
  have unfold: "throttle st ((t0, r0) # reqs) =
                  (Next r0 # fst (throttle ?st reqs), snd (throttle ?st reqs))"
    using step by (simp add: split_beta)
  {
    fix i assume "i \<le> length reqs"
    then show "fst (throttle st ((t0, r0) # reqs)) ! i =
            (if i < 1000 then Next (snd (((t0, r0) # reqs) ! i))
             else Respond (failure 429 ''Event collection rate limit exceeded.''))"
      using unfold run by (cases i) (auto simp: max_requests_def rate_limited_def)
  }
  have "snd (throttle st ((t0, r0) # reqs)) (keyGenerator r1) =
          Some (1 + length reqs, t0 + windowMs)"
    using unfold run later(1) by simp
  moreover have "t0 + windowMs \<le> t1" using later(2) by (simp add: windowMs_def)
  ultimately show
    "fst (eventCollectionLimiter t1 (snd (throttle st ((t0, r0) # reqs))) r1) = Next r1"
    using limiter_closed_window
            [where st = "snd (throttle st ((t0, r0) # reqs))" and req = r1 and now = t1] by simp
qed

theorem eventCollectionLimiter_fixed_window_witness:
  "fst (throttle Map.empty ((0, demo_request (Some ''s1'') ())
          # replicate 1000 (5, demo_request (Some ''s1'') ()))) ! 999 =
     Next (demo_request (Some ''s1'') ()) \<and>
   fst (throttle Map.empty ((0, demo_request (Some ''s1'') ())
          # replicate 1000 (5, demo_request (Some ''s1'') ()))) ! 1000 =
     Respond (failure 429 ''Event collection rate limit exceeded.'') \<and>
   fst (eventCollectionLimiter 60000
          (snd (throttle Map.empty ((0, demo_request (Some ''s1'') ())
                  # replicate 1000 (5, demo_request (Some ''s1'') ()))))
          (demo_request (Some ''s1'') ())) =
     Next (demo_request (Some ''s1'') ())"
proof -
  let ?r = "demo_request (Some ''s1'') () :: unit AuthRequest"
  have k: "keyGenerator ?r = ''s1''"
    by (simp add: keyGenerator_def or_else_def truthy_def demo_request_def)
  have closed: "case (Map.empty :: hit_store) ''s1'' of None \<Rightarrow> True
                | Some (h, resetTime) \<Rightarrow> resetTime \<le> 0"
    by simp
  have window: "\<forall>(t, r)\<in>set (replicate 1000 (5 :: int, ?r)).
                  keyGenerator r = ''s1'' \<and> 0 \<le> t \<and> t < 0 + 60000"
    using k by simp
  have later: "(0 :: int) + 60000 \<le> 60000" by simp
  note t = eventCollectionLimiter_fixed_window [OF closed k window k later]
  note a = t [THEN conjunct2, THEN conjunct1, rule_format]
  have b: "fst (throttle Map.empty ((0, ?r) # replicate 1000 (5, ?r))) ! 999 = Next ?r"
    using a [of 999] by simp
  have c: "fst (throttle Map.empty ((0, ?r) # replicate 1000 (5, ?r))) ! 1000 =
             Respond (failure 429 ''Event collection rate limit exceeded.'')"
    using a [of 1000] by simp
  from b c t [THEN conjunct2, THEN conjunct2] show ?thesis
    by (intro conjI)
qed

section \<open>The summary aggregate against the event table\<close>

lemma group_count_keys: "distinct (map fst (group_count key rs))"
  by (simp add: group_count_def o_def)

lemma filter_key_at_most_one:
  "distinct (map fst xs) \<Longrightarrow> length (filter (\<lambda>x. fst x = k0) xs) \<le> 1"
proof (induction xs)
  case Nil
  then show ?case by simp
next
  case (Cons x xs)
  show ?case
  proof (cases "fst x = k0")
    case True
    with Cons.prems have "k0 \<notin> fst ` set xs" by auto
    then have "filter (\<lambda>x. fst x = k0) xs = []"
      by (auto simp: filter_empty_conv)
    with True show ?thesis by simp
  next
    case False
    with Cons show ?thesis by simp
  qed
qed

lemma concat_map_if: "concat (map (\<lambda>x. if Q x then [f x] else []) xs) = map f (filter Q xs)"
  by (induction xs) auto

lemma left_join_singleton: "length ms \<le> 1 \<Longrightarrow> \<exists>x. left_join ms = [x]"
  by (cases ms) (auto simp: left_join_def)

lemma join_counts_singleton: "\<exists>x. join_counts col es e = [x]"
proof -
  let ?xs = "counts_by col es"
  have d: "distinct (map fst ?xs)"
    unfolding counts_by_def by (rule group_count_keys)
  have "[n. ((k, c), n) \<leftarrow> ?xs, e_api_key_id e = k \<and> sql_eq (col e) c] =
          map snd (filter (\<lambda>x. col e \<noteq> None \<and> fst x = (e_api_key_id e, col e)) ?xs)"
    (is "?ms = _")
  proof -
    have "?ms = concat (map (\<lambda>x. if col e \<noteq> None \<and> fst x = (e_api_key_id e, col e)
                                  then [snd x] else []) ?xs)"
      by (rule arg_cong [where f = concat], rule map_cong)
         (auto simp: sql_eq_def split_beta)
    then show ?thesis by (simp only: concat_map_if)
  qed
  moreover have "length (filter (\<lambda>x. col e \<noteq> None \<and> fst x = (e_api_key_id e, col e)) ?xs) \<le> 1"
  proof (cases "col e = None")
    case True
    then show ?thesis by simp
  next
    case False
    then show ?thesis using filter_key_at_most_one [OF d] by simp
  qed
  ultimately have "length ?ms \<le> 1" by simp
  then show ?thesis unfolding join_counts_def by (rule left_join_singleton)
qed

lemma summary_rows_pairs:
  "map (\<lambda>(e, k, dc, bc, oc). (e, k)) (summary_rows w q userId) =
     [(e, k). e \<leftarrow> events w, k \<leftarrow> api_keys w, e_api_key_id e = ak_id k,
              summary_where q userId e k]"
proof -
  from join_counts_singleton
  have "\<forall>col es e. \<exists>x. join_counts col es e = [x]" by blast
  then obtain f where f: "\<And>col es e. join_counts col es e = [f col es e]"
    by metis
  show ?thesis
    unfolding summary_rows_def
    by (simp add: f map_concat o_def if_distrib [of "map _"] cong: if_cong)
qed

lemma remdups_constant:
  assumes "xs \<noteq> []" "\<forall>x\<in>set xs. x = a"
  shows "remdups xs = [a]"
proof -
  from assms(1) obtain x where x: "x \<in> set xs" by (cases xs) auto
  from assms(2) x have "x = a" by (rule bspec)
  with x have "a \<in> set xs" by simp
  moreover from assms(2) have "set xs \<subseteq> {a}" by blast
  ultimately have s: "set xs = {a}" by auto
  then have "length (remdups xs) = 1"
    by (simp add: length_remdups_card_conv)
  then obtain y where y: "remdups xs = [y]"
    by (cases "remdups xs") auto
  then have "set (remdups xs) = {y}" by simp
  with s have "y = a" by simp
  with y show ?thesis by simp
qed

lemma count_distinct_card: "count_distinct xs = card {x. Some x \<in> set xs}"
proof -
  have "set (non_null xs) = {x. Some x \<in> set xs}"
    by (auto simp: non_null_def split: option.splits)
  then show ?thesis
    by (simp add: count_distinct_def length_remdups_card_conv)
qed

lemma summary_result_one_name:
  assumes "rs \<noteq> []" "\<forall>x\<in>set rs. e_event_name (fst x) = ev"
  shows "\<exists>s. summary_result rs = [s] \<and> s_count s = length rs \<and>
             s_uniqueUsers s = count_distinct (map (\<lambda>x. e_user_id (fst x)) rs)"
proof -
  have names: "remdups (map (\<lambda>x. e_event_name (fst x)) rs) = [ev]"
    using assms by (intro remdups_constant) auto
  have all: "filter (\<lambda>x. e_event_name (fst x) = ev) rs = rs"
    using assms(2) by (intro filter_True) auto
  show ?thesis
    unfolding summary_result_def case_prod_unfold names
    by (simp add: all Let_def)
qed

lemma insert_events_Some:
  assumes "insert_events w v = Some w'"
  shows "\<exists>row. w' = w\<lparr> events := events w @ [row] \<rparr> \<and>
               e_api_key_id row = e_api_key_id v \<and>
               varchar 255 (e_event_name v) = Some (e_event_name row) \<and>
               nullable (varchar 255) (e_user_id v) = Some (e_user_id row)"
  using assms by (auto simp: insert_events_def bind_eq_Some_conv split: if_splits)

lemma event_values_fields:
  "e_api_key_id (event_values now i d r) = ak_id (ak d)"
  "e_event_name (event_values now i d r) = b_event (input r)"
  "e_user_id (event_values now i d r) = b_user_id (input r)"
  by (simp_all add: event_values_def Let_def)

lemma collectEvent_frame:
  "db_up (snd (collectEvent now i w r)) = db_up w \<and>
   api_keys (snd (collectEvent now i w r)) = api_keys w \<and>
   (redis w key = None \<longrightarrow> redis (snd (collectEvent now i w r)) key = None)"
proof (cases "apiKeyData r")
  case None
  then show ?thesis by (simp add: collectEvent_def)
next
  case (Some d)
  show ?thesis
  proof (cases "insert_events w (event_values now i d r)")
    case None
    with Some show ?thesis by (simp add: collectEvent_def)
  next
    case (Some w1)
    from insert_events_Some [OF Some]
    obtain row where "w1 = w\<lparr> events := events w @ [row] \<rparr>" by blast
    with Some \<open>apiKeyData r = Some d\<close> show ?thesis
      by (simp add: collectEvent_def cacheDeletePattern_def)
  qed
qed

lemma varchar_fits: "length s \<le> n \<Longrightarrow> varchar n s = Some s"
  by (simp add: varchar_def)

lemma collectEvent_created:
  assumes "status (fst (collectEvent now i w r)) = 201"
      and "length (b_event (input r)) \<le> 255"
      and "\<forall>x. b_user_id (input r) = Some x \<longrightarrow> length x \<le> 255"
  shows "\<exists>d row. apiKeyData r = Some d \<and>
               events (snd (collectEvent now i w r)) = events w @ [row] \<and>
               e_api_key_id row = ak_id (ak d) \<and> e_event_name row = b_event (input r) \<and>
               e_user_id row = b_user_id (input r)"
proof (cases "apiKeyData r")
  case None
  with assms(1) show ?thesis by (simp add: collectEvent_def failure_def)
next
  case (Some d)
  show ?thesis
  proof (cases "insert_events w (event_values now i d r)")
    case None
    with Some assms(1) show ?thesis by (simp add: collectEvent_def failure_def)
  next
    case (Some w1)
    from insert_events_Some [OF Some]
    obtain row where row: "w1 = w\<lparr> events := events w @ [row] \<rparr>"
      "e_api_key_id row = ak_id (ak d)"
      "varchar 255 (b_event (input r)) = Some (e_event_name row)"
      "nullable (varchar 255) (b_user_id (input r)) = Some (e_user_id row)"
      unfolding event_values_fields by blast
    from row(3) assms(2) have name: "e_event_name row = b_event (input r)"
      by (simp add: varchar_fits)
    from row(4) assms(3) have uid: "e_user_id row = b_user_id (input r)"
      by (cases "b_user_id (input r)") (auto simp: nullable_def varchar_fits)
    have "events (snd (collectEvent now i w r)) = events w @ [row]"
      using Some \<open>apiKeyData r = Some d\<close> row(1)
      by (simp add: collectEvent_def cacheDeletePattern_def)
    with \<open>apiKeyData r = Some d\<close> row(2) name uid show ?thesis by blast
  qed
qed

lemma collectEvents_frame:
  "db_up (collectEvents w ws) = db_up w \<and> api_keys (collectEvents w ws) = api_keys w \<and>
   (redis w key = None \<longrightarrow> redis (collectEvents w ws) key = None)"
proof (induction ws arbitrary: w)
  case Nil
  then show ?case by simp
next
  case (Cons a ws)
  obtain now i r where a: "a = (now, i, r)" by (cases a)
  show ?case
    using Cons.IH [of "snd (collectEvent now i w r)"] collectEvent_frame [of now i w r key]
    by (simp add: a)
qed

lemma collectEvents_appends:
  assumes "\<forall>resp\<in>set (collectResponses w ws). status resp = 201"
      and "\<forall>(t, i, r)\<in>set ws. (\<exists>d. apiKeyData r = Some d \<and> ak_id (ak d) = cid) \<and>
                                b_event (input r) = ev"
      and "length ev \<le> 255"
      and "\<forall>(t, i, r)\<in>set ws. \<forall>x. b_user_id (input r) = Some x \<longrightarrow> length x \<le> 255"
  shows "\<exists>rows. events (collectEvents w ws) = events w @ rows \<and>
                map e_api_key_id rows = map (\<lambda>x. cid) ws \<and>
                map e_event_name rows = map (\<lambda>x. ev) ws \<and>
                map e_user_id rows = map (\<lambda>(t, i, r). b_user_id (input r)) ws"
  using assms(1,2,4)
proof (induction ws arbitrary: w)
  case Nil
  then show ?case by simp
next
  case (Cons a ws)
  obtain now i r where a: "a = (now, i, r)" by (cases a)
  let ?w = "snd (collectEvent now i w r)"
  from Cons.prems(1) a have ok: "status (fst (collectEvent now i w r)) = 201"
    and rest: "\<forall>resp\<in>set (collectResponses ?w ws). status resp = 201"
    by simp_all
  from Cons.prems(2) a obtain d where d: "apiKeyData r = Some d" "ak_id (ak d) = cid"
    and ev: "b_event (input r) = ev" by auto
  from Cons.prems(3) a have len: "\<forall>x. b_user_id (input r) = Some x \<longrightarrow> length x \<le> 255"
    by simp
  from collectEvent_created [OF ok _ len] ev assms(3) d
  obtain row where row: "events ?w = events w @ [row]" "e_api_key_id row = cid"
    "e_event_name row = ev" "e_user_id row = b_user_id (input r)"
    by auto
  have "\<forall>(t, i, r)\<in>set ws. (\<exists>d. apiKeyData r = Some d \<and> ak_id (ak d) = cid) \<and>
                                b_event (input r) = ev"
    using Cons.prems(2) by simp
  moreover have "\<forall>(t, i, r)\<in>set ws. \<forall>x. b_user_id (input r) = Some x \<longrightarrow> length x \<le> 255"
    using Cons.prems(3) by simp
  ultimately obtain rows where rows: "events (collectEvents ?w ws) = events ?w @ rows"
    "map e_api_key_id rows = map (\<lambda>x. cid) ws" "map e_event_name rows = map (\<lambda>x. ev) ws"
    "map e_user_id rows = map (\<lambda>(t, i, r). b_user_id (input r)) ws"
    using Cons.IH [OF rest] by blast
  show ?case
    by (rule exI [of _ "row # rows"]) (simp add: a row rows)
qed

lemma unique_key_row:
  assumes "distinct (map ak_id ks)" "c \<in> set ks"
  shows "concat (map (\<lambda>k. if ak_id c = ak_id k \<and> P k then [f k] else []) ks) =
           (if P c then [f c] else [])"
  using assms
proof (induction ks)
  case Nil
  then show ?case by simp
next
  case (Cons k ks)
  show ?case
  proof (cases "k = c")
    case True
    with Cons.prems have "\<forall>k'\<in>set ks. ak_id c \<noteq> ak_id k'" by auto
    then have "concat (map (\<lambda>k. if ak_id c = ak_id k \<and> P k then [f k] else []) ks) = []"
      by (induction ks) auto
    with True show ?thesis by simp
  next
    case False
    with Cons.prems have "c \<in> set ks" "ak_id c \<noteq> ak_id k" "distinct (map ak_id ks)"
      by (auto simp: image_iff)
    with Cons.IH show ?thesis by simp
  qed
qed

lemma concat_map_nil: "\<forall>x\<in>set xs. g x = [] \<Longrightarrow> concat (map g xs) = []"
  by (induction xs) auto

lemma concat_map_single: "\<forall>x\<in>set xs. g x = [h x] \<Longrightarrow> concat (map g xs) = map h xs"
  by (induction xs) auto

text \<open>
  Claim C3: take a store that answers, with the credential \<open>c\<close> in it (credential ids
  being unique), no event named \<open>ev\<close> yet under the credentials of the owner of \<open>c\<close>, and
  no cache entry under the query's key. Let \<open>N\<close> events named \<open>ev\<close> be written under
  \<open>c\<close>, each write answered 201, with the event name and the \<open>user_id\<close> values within
  the 255 characters that \<open>schemas.collectEvent\<close> admits. Then the summary query for
  \<open>ev\<close> by the owner (with no date range, and either no \<open>app_id\<close> or that of \<open>c\<close>) is
  answered with \<open>count = N\<close> and \<open>uniqueUsers\<close> the number of distinct non-null
  \<open>user_id\<close> values among the \<open>N\<close> events.
\<close>

theorem summary_counts_written_events:
  assumes up: "db_up w"
      and pk: "distinct (map ak_id (api_keys w))"
      and cred: "c \<in> set (api_keys w)"
      and writes: "\<forall>(t, i, r)\<in>set ws.
                     (\<exists>d. apiKeyData r = Some d \<and> ak_id (ak d) = ak_id c) \<and>
                     b_event (input r) = ev"
      and valid: "length ev \<le> 255"
                 "\<forall>(t, i, r)\<in>set ws. \<forall>x. b_user_id (input r) = Some x \<longrightarrow> length x \<le> 255"
      and created: "\<forall>resp\<in>set (collectResponses w ws). status resp = 201"
      and fresh: "\<forall>e\<in>set (events w). \<forall>k\<in>set (api_keys w).
                    e_api_key_id e = ak_id k \<and> ak_user_id k = u_id u \<longrightarrow> e_event_name e \<noteq> ev"
      and owner: "user req = Some u" "u_id u = ak_user_id c" "u_id u \<noteq> []"
      and query: "q_event (input req) = ev" "q_startDate (input req) = None"
                 "q_endDate (input req) = None"
                 "q_app_id (input req) = None \<or> q_app_id (input req) = Some (ak_id c)"
      and miss: "redis w (summaryCacheKey req) = None"
  shows "\<exists>s. fst (getEventSummary now (collectEvents w ws) req) = ok (SummaryDoc s) None \<and>
             s_count s = length ws \<and>
             s_uniqueUsers s = card {x. \<exists>(t, i, r)\<in>set ws. b_user_id (input r) = Some x}"
proof -
  let ?w = "collectEvents w ws"
  let ?q = "input req"
  let ?uid = "userId_of req"
  have if_nest: "\<And>a b (x :: (events_row \<times> api_keys_row) list).
                   (if a then if b then x else [] else []) = (if a \<and> b then x else [])"
    by simp
  from collectEvents_frame [of w ws "summaryCacheKey req"] up miss
  have frame: "db_up ?w" "api_keys ?w = api_keys w" "redis ?w (summaryCacheKey req) = None"
    by simp_all
  from collectEvents_appends [OF created writes valid]
  obtain rows where rows: "events ?w = events w @ rows"
    "map e_api_key_id rows = map (\<lambda>x. ak_id c) ws" "map e_event_name rows = map (\<lambda>x. ev) ws"
    "map e_user_id rows = map (\<lambda>(t, i, r). b_user_id (input r)) ws"
    by blast
  have len: "length rows = length ws"
    using rows(2) by (metis length_map)
  have new: "e_api_key_id e = ak_id c \<and> e_event_name e = ev" if "e \<in> set rows" for e
  proof -
    from that have "e_api_key_id e \<in> set (map e_api_key_id rows)"
      "e_event_name e \<in> set (map e_event_name rows)" by auto
    then show ?thesis unfolding rows(2,3) by auto
  qed
  have where_c: "summary_where ?q ?uid e c" if "e \<in> set rows" for e
    using new [OF that] owner query
    by (auto simp: summary_where_def userId_of_def truthy_def)
  have old: "\<forall>e\<in>set (events w).
        concat (map (\<lambda>k. if e_api_key_id e = ak_id k \<and> summary_where ?q ?uid e k
                          then [(e, k)] else []) (api_keys w)) = []"
  proof
    fix e assume e: "e \<in> set (events w)"
    have "\<not> (e_api_key_id e = ak_id k \<and> summary_where ?q ?uid e k)"
      if "k \<in> set (api_keys w)" for k
    proof
      assume a: "e_api_key_id e = ak_id k \<and> summary_where ?q ?uid e k"
      then have "e_event_name e = ev" "ak_user_id k = u_id u"
        using query(1) owner(1,3) by (auto simp: summary_where_def userId_of_def truthy_def)
      with fresh e that a show False by blast
    qed
    then show "concat (map (\<lambda>k. if e_api_key_id e = ak_id k \<and> summary_where ?q ?uid e k
                          then [(e, k)] else []) (api_keys w)) = []"
      by (intro concat_map_nil) simp
  qed
  have fresh_rows: "\<forall>e\<in>set rows.
        concat (map (\<lambda>k. if e_api_key_id e = ak_id k \<and> summary_where ?q ?uid e k
                          then [(e, k)] else []) (api_keys w)) = [(e, c)]"
  proof
    fix e assume e: "e \<in> set rows"
    have "concat (map (\<lambda>k. if ak_id c = ak_id k \<and> summary_where ?q ?uid e k
                          then [(e, k)] else []) (api_keys w)) =
            (if summary_where ?q ?uid e c then [(e, c)] else [])"
      by (rule unique_key_row [OF pk cred])
    with new [OF e] where_c [OF e]
    show "concat (map (\<lambda>k. if e_api_key_id e = ak_id k \<and> summary_where ?q ?uid e k
                          then [(e, k)] else []) (api_keys w)) = [(e, c)]"
      by simp
  qed
  have pairs: "map (\<lambda>(e, k, dc, bc, oc). (e, k)) (summary_rows ?w ?q ?uid) =
                 map (\<lambda>e. (e, c)) rows"
  proof -
    have "map (\<lambda>(e, k, dc, bc, oc). (e, k)) (summary_rows ?w ?q ?uid) =
            concat (map (\<lambda>e. concat (map (\<lambda>k. if e_api_key_id e = ak_id k \<and>
                                                   summary_where ?q ?uid e k
                          then [(e, k)] else []) (api_keys w))) (events w @ rows))"
      unfolding summary_rows_pairs frame(2) rows(1)
      by (simp add: if_nest cong: if_cong)
    also have "\<dots> = map (\<lambda>e. (e, c)) rows"
      using concat_map_nil [OF old] concat_map_single [OF fresh_rows] by simp
    finally show ?thesis .
  qed
  let ?rs = "summary_rows ?w ?q ?uid"
  have firsts: "map fst ?rs = rows"
  proof -
    have "map fst ?rs = map fst (map (\<lambda>(e, k, dc, bc, oc). (e, k)) ?rs)"
      by (simp add: case_prod_unfold o_def)
    also have "\<dots> = rows" unfolding pairs by (simp add: o_def)
    finally show ?thesis .
  qed
  have miss': "cacheGet now ?w (summaryCacheKey req) = None"
    using frame(3) by (simp add: cacheGet_def)
  have users: "{x. Some x \<in> set (map e_user_id rows)} =
                 {x. \<exists>(t, i, r)\<in>set ws. b_user_id (input r) = Some x}"
  proof -
    have "Some x \<in> set (map e_user_id rows) \<longleftrightarrow>
            (\<exists>(t, i, r)\<in>set ws. b_user_id (input r) = Some x)" for x
      unfolding rows(4) by (force simp: case_prod_unfold image_iff)
    then show ?thesis by simp
  qed
  show ?thesis
  proof (cases "ws = []")
    case True
    with len firsts have "?rs = []" by simp
    then have "fst (getEventSummary now ?w req) = ok (SummaryDoc (zero_summary ev)) None"
      using miss' frame(1) query(1) by (simp add: getEventSummary_def summary_result_def)
    with True show ?thesis
      by (intro exI [of _ "zero_summary ev"]) (simp add: zero_summary_def)
  next
    case False
    with len firsts have ne: "?rs \<noteq> []" by auto
    have "\<forall>x\<in>set ?rs. e_event_name (fst x) = ev"
    proof
      fix x assume "x \<in> set ?rs"
      then have "fst x \<in> set (map fst ?rs)" by simp
      with firsts new show "e_event_name (fst x) = ev" by simp
    qed
    from summary_result_one_name [OF ne this]
    obtain s where s: "summary_result ?rs = [s]" "s_count s = length ?rs"
      "s_uniqueUsers s = count_distinct (map (\<lambda>x. e_user_id (fst x)) ?rs)"
      by blast
    have "map (\<lambda>x. e_user_id (fst x)) ?rs = map e_user_id (map fst ?rs)"
      by (simp add: o_def)
    then have uu: "s_uniqueUsers s = card {x. Some x \<in> set (map e_user_id rows)}"
      using s(3) firsts by (simp add: count_distinct_card)
    have cnt: "s_count s = length ws"
      using s(2) firsts len by (metis length_map)
    have "fst (getEventSummary now ?w req) = ok (SummaryDoc s) None"
      using miss' frame(1) s(1) by (simp add: getEventSummary_def)
    with cnt uu users show ?thesis
      by (intro exI [of _ s]) simp
  qed
qed

theorem summary_counts_written_events_witness:
  "\<exists>s. fst (getEventSummary 5
              (collectEvents demo_world
                 [(1, ''e1'', click_request (Some ''visitor'')),
                  (2, ''e2'', click_request (Some ''visitor'')),
                  (3, ''e3'', click_request None)])
              click_summary) = ok (SummaryDoc s) None \<and>
       s_count s = 3 \<and> s_uniqueUsers s = 1"
proof -
  let ?ws = "[(1 :: int, ''e1'', click_request (Some ''visitor'')),
              (2, ''e2'', click_request (Some ''visitor'')),
              (3, ''e3'', click_request None)]"
  have up: "db_up demo_world" by (simp add: demo_defs)
  have pk: "distinct (map ak_id (api_keys demo_world))" by (simp add: demo_defs)
  have cred: "demo_key \<in> set (api_keys demo_world)" by (simp add: demo_defs)
  have writes: "\<forall>(t, i, r)\<in>set ?ws.
                  (\<exists>d. apiKeyData r = Some d \<and> ak_id (ak d) = ak_id demo_key) \<and>
                  b_event (input r) = ''click''"
    by (simp add: demo_defs)
  have valid: "length ''click'' \<le> 255"
    "\<forall>(t, i, r)\<in>set ?ws. \<forall>x. b_user_id (input r) = Some x \<longrightarrow> length x \<le> 255"
    by (simp_all add: demo_defs)
  have created: "\<forall>resp\<in>set (collectResponses demo_world ?ws). status resp = 201"
    by (simp add: run_defs demo_defs parse_unknown Let_def)
  have fresh: "\<forall>e\<in>set (events demo_world). \<forall>k\<in>set (api_keys demo_world).
                 e_api_key_id e = ak_id k \<and> ak_user_id k = u_id demo_user \<longrightarrow>
                 e_event_name e \<noteq> ''click''"
    by (simp add: demo_defs)
  have owner: "user click_summary = Some demo_user" "u_id demo_user = ak_user_id demo_key"
    "u_id demo_user \<noteq> []"
    by (simp_all add: demo_defs)
  have query: "q_event (input click_summary) = ''click''"
    "q_startDate (input click_summary) = None" "q_endDate (input click_summary) = None"
    "q_app_id (input click_summary) = None \<or>
     q_app_id (input click_summary) = Some (ak_id demo_key)"
    by (simp_all add: demo_defs)
  have miss: "redis demo_world (summaryCacheKey click_summary) = None"
    by (simp add: demo_defs)
  have users: "{x. \<exists>(t, i, r)\<in>set ?ws. b_user_id (input r) = Some x} = {''visitor''}"
    by (auto simp: demo_defs)
  from summary_counts_written_events
         [OF up pk cred writes valid created fresh owner query miss, of 5]
  show ?thesis unfolding users by (simp add: eval_nat_numeral)
qed

section \<open>The writer's delete pattern against the keys of the read path\<close>

lemma glob_star: "glob_match ''*'' s"
  by (induction s) auto

lemma glob_literal_prefix:
  assumes "\<forall>c\<in>set p. c \<noteq> CHR ''*'' \<and> c \<noteq> CHR ''?''"
  shows "glob_match (p @ q) s \<longleftrightarrow> (\<exists>t. s = p @ t \<and> glob_match q t)"
  using assms
proof (induction p arbitrary: s)
  case Nil
  then show ?case by simp
next
  case (Cons a p)
  show ?case
  proof (cases s)
    case Nil
    with Cons.prems show ?thesis by simp
  next
    case (Cons c s')
    with Cons.prems Cons.IH [of s'] show ?thesis by auto
  qed
qed

lemma pattern_matches_prefix:
  assumes "\<forall>c\<in>set i. c \<noteq> CHR ''*'' \<and> c \<noteq> CHR ''?''"
  shows "glob_match (''analytics:'' @ i @ '':*'') key \<longleftrightarrow>
           (\<exists>t. key = ''analytics:'' @ i @ '':'' @ t)"
proof -
  have lit: "\<forall>c\<in>set (''analytics:'' @ i @ '':''). c \<noteq> CHR ''*'' \<and> c \<noteq> CHR ''?''"
    using assms by auto
  have "glob_match ((''analytics:'' @ i @ '':'') @ ''*'') key \<longleftrightarrow>
          (\<exists>t. key = (''analytics:'' @ i @ '':'') @ t \<and> glob_match ''*'' t)"
    by (rule glob_literal_prefix [OF lit])
  then show ?thesis by (simp add: glob_star)
qed

text \<open>
  For a credential id without \<open>*\<close>, \<open>?\<close> and \<open>:\<close> (a UUID is one) that is not the word
  \<open>summary\<close>, a successful write leaves every entry under a summary key as it was.
\<close>

lemma collectEvent_keeps_summary_entries:
  assumes "apiKeyData r = Some d"
      and "\<forall>c\<in>set (ak_id (ak d)). c \<noteq> CHR ''*'' \<and> c \<noteq> CHR ''?'' \<and> c \<noteq> CHR '':''"
      and "ak_id (ak d) \<noteq> ''summary''"
  shows "redis (snd (collectEvent now new_id w r)) (summaryCacheKey req) =
           redis w (summaryCacheKey req)"
proof -
  let ?i = "ak_id (ak d)"
  obtain rest where key: "summaryCacheKey req = ''analytics:summary:'' @ rest"
    by (simp add: summaryCacheKey_def Let_def)
  have "\<not> glob_match (''analytics:'' @ ?i @ '':*'') (summaryCacheKey req)"
  proof
    assume "glob_match (''analytics:'' @ ?i @ '':*'') (summaryCacheKey req)"
    with pattern_matches_prefix [of ?i "summaryCacheKey req"] assms(2)
    obtain t where "summaryCacheKey req = ''analytics:'' @ ?i @ '':'' @ t" by auto
    with key have eq: "''summary'' @ (CHR '':'' # rest) = ?i @ (CHR '':'' # t)" by simp
    have l: "takeWhile (\<lambda>c. c \<noteq> CHR '':'') (''summary'' @ (CHR '':'' # rest)) = ''summary''"
      by simp
    have r: "takeWhile (\<lambda>c. c \<noteq> CHR '':'') (?i @ (CHR '':'' # t)) = ?i"
      using assms(2) by (simp add: takeWhile_append2)
    from eq have "takeWhile (\<lambda>c. c \<noteq> CHR '':'') (''summary'' @ (CHR '':'' # rest)) =
                  takeWhile (\<lambda>c. c \<noteq> CHR '':'') (?i @ (CHR '':'' # t))"
      by (rule arg_cong)
    then have "?i = ''summary''" unfolding l r by simp
    with assms(3) show False by simp
  qed
  then show ?thesis
    using assms(1)
    by (auto simp: collectEvent_def cacheDeletePattern_def insert_events_def
             bind_eq_Some_conv split: option.splits if_splits)
qed

end
